theory Spec2Isabelle
  imports Main "HOL-Library.Sublist"
begin

section \<open>Text\<close>

text \<open>
  A Python \<open>str\<close> is modelled as a \<open>string\<close>: one \<open>char\<close> per code point, for the code
  points below 256. On these, the character classes of \<open>re\<close> and \<open>str.strip\<close> are the
  following: \<open>\s\<close> and the default of \<open>strip()\<close> are tab to carriage return, the four
  separators 28 to 31, the space, NEL (133) and the no-break space (160); \<open>\d\<close> is
  \<open>0\<close> to \<open>9\<close>.
\<close>

definition is_space :: "char \<Rightarrow> bool" where
  "is_space c =
     (let n = (of_char c :: nat)
      in (9 \<le> n \<and> n \<le> 13) \<or> (28 \<le> n \<and> n \<le> 32) \<or> n = 133 \<or> n = 160)"

definition is_digit :: "char \<Rightarrow> bool" where
  "is_digit c = (let n = (of_char c :: nat) in 48 \<le> n \<and> n \<le> 57)"

text \<open>\<open>s.strip()\<close> and \<open>s.strip(chars)\<close>: both ends.\<close>

definition strip_with :: "(char \<Rightarrow> bool) \<Rightarrow> string \<Rightarrow> string" where
  "strip_with p s = rev (dropWhile p (rev (dropWhile p s)))"

definition py_strip :: "string \<Rightarrow> string" where
  "py_strip s = strip_with is_space s"

definition strip_chars :: "string \<Rightarrow> string \<Rightarrow> string" where
  "strip_chars chars s = strip_with (\<lambda>c. c \<in> set chars) s"

text \<open>A table cell, and any value a row can hand to the helpers: pandas reads a column
  with \<open>dtype=str\<close>, so a cell is a \<open>str\<close> or the float NaN of a missing value; the
  two appended columns hold a \<open>str\<close> or \<open>None\<close>.\<close>

datatype cell = Text string | NaN | PyNone

section \<open>Identifier extractor\<close>

text \<open>\<open>re.search(r"viaf\.org/viaf/(\d+)", url)\<close>: the leftmost position at which the
  literal text is followed by a digit; group 1 is the longest run of digits there.\<close>

definition viaf_prefix :: string where
  "viaf_prefix = ''viaf.org/viaf/''"

definition viaf_match_at :: "string \<Rightarrow> bool" where
  "viaf_match_at s =
     (take (length viaf_prefix) s = viaf_prefix
        \<and> takeWhile is_digit (drop (length viaf_prefix) s) \<noteq> [])"

fun search_viaf :: "string \<Rightarrow> string option" where
  "search_viaf [] = None"
| "search_viaf (c # cs) =
     (if viaf_match_at (c # cs)
      then Some (takeWhile is_digit (drop (length viaf_prefix) (c # cs)))
      else search_viaf cs)"

fun extract_viaf_id :: "cell \<Rightarrow> string option" where
  "extract_viaf_id (Text url) =
     (if py_strip url = '''' \<or> py_strip url = ''NA'' then None else search_viaf url)"
| "extract_viaf_id NaN = None"
| "extract_viaf_id PyNone = None"

section \<open>Title normalizer\<close>

definition is_sep :: "char \<Rightarrow> bool" where
  "is_sep c = (c = CHR '':'' \<or> c = CHR '';'')"

text \<open>\<open>\s*[:;]\<close> matches at the start of \<open>s\<close>: the separators are no whitespace, so the
  greedy \<open>\s*\<close> succeeds exactly when a separator follows the whole run of whitespace.\<close>

definition sep_match_at :: "string \<Rightarrow> bool" where
  "sep_match_at s = (case dropWhile is_space s of [] \<Rightarrow> False | c # _ \<Rightarrow> is_sep c)"

text \<open>\<open>re.split(r"\s*[:;]\s*", title)[0]\<close>: the text before the leftmost match, the whole
  text when there is none.\<close>

fun split_head :: "string \<Rightarrow> string" where
  "split_head [] = []"
| "split_head (c # cs) = (if sep_match_at (c # cs) then [] else c # split_head cs)"

definition normalize_title :: "string \<Rightarrow> string" where
  "normalize_title title = strip_chars '' .,'' (split_head title)"

section \<open>Query service client\<close>

text \<open>An exception of the run, with the text that \<open>str(e)\<close> gives.\<close>

datatype exn =
    RequestException string
  | HTTPError string
  | JSONDecodeError string
  | KeyError string
  | TypeError string
  | ValueError string

fun exn_text :: "exn \<Rightarrow> string" where
  "exn_text (RequestException m) = m"
| "exn_text (HTTPError m) = m"
| "exn_text (JSONDecodeError m) = m"
| "exn_text (KeyError k) = [CHR 0x27] @ k @ [CHR 0x27]"
| "exn_text (TypeError m) = m"
| "exn_text (ValueError m) = m"

text \<open>One result row of the service: a dict from variable names to dicts such as
  \<open>{"type": "uri", "value": "http://www.wikidata.org/entity/Q42"}\<close>.\<close>

type_synonym binding = "string \<rightharpoonup> (string \<rightharpoonup> string)"

text \<open>What the body of the \<open>try\<close> in \<open>sparql_query\<close> comes to: \<open>requests.get\<close>,
  \<open>raise_for_status\<close>, \<open>json()\<close> or one of the two subscripts raises, or the bindings are
  there. The remote service is a parameter of the model: its answer may depend on the
  query and on how many requests were made before.\<close>

datatype reply = Raises exn | Bindings "binding list"

type_synonym service = "nat \<Rightarrow> string \<Rightarrow> reply"

text \<open>What the run does to the outside, in order: a request sent, a warning printed, the
  progress line printed before a resolution (recorded by the cache and key that is being
  resolved, not by its wording), a pause of \<open>DELAY\<close> seconds. The other lines that
  \<open>main\<close> prints are left out.\<close>

datatype lookup = Author string | Work string

datatype event = Request string | Warning string | Progress lookup | Sleep

type_synonym world = "event list"

fun is_request :: "event \<Rightarrow> bool" where
  "is_request (Request _) = True"
| "is_request _ = False"

definition requests_made :: "world \<Rightarrow> nat" where
  "requests_made w = length (filter is_request w)"

definition warning_text :: "string \<Rightarrow> exn \<Rightarrow> string" where
  "warning_text label e =
     ''  Warning: SPARQL error'' @ (if label \<noteq> [] then '' for '' @ label else [])
       @ '': '' @ exn_text e"

definition sparql_request :: "service \<Rightarrow> string \<Rightarrow> world \<Rightarrow> (exn + binding list) \<times> world" where
  "sparql_request svc query w =
     (case svc (requests_made w) query of
        Raises e \<Rightarrow> (Inl e, w @ [Request query])
      | Bindings bs \<Rightarrow> (Inr bs, w @ [Request query]))"

definition sparql_query :: "service \<Rightarrow> string \<Rightarrow> string \<Rightarrow> world \<Rightarrow> (exn + binding list) \<times> world" where
  "sparql_query svc query label w =
     (case sparql_request svc query w of
        (Inr bs, w') \<Rightarrow> (Inr bs, w')
      | (Inl e, w') \<Rightarrow> (Inr [], w' @ [Warning (warning_text label e)]))"

text \<open>\<open>uri.rsplit("/", 1)[-1]\<close>: the text after the last slash, all of it when there is
  none.\<close>

definition rsplit_last :: "string \<Rightarrow> string" where
  "rsplit_last uri = rev (takeWhile (\<lambda>c. c \<noteq> CHR ''/'') (rev uri))"

definition first_qid :: "binding list \<Rightarrow> string \<Rightarrow> exn + string option" where
  "first_qid bindings var =
     (case bindings of
        [] \<Rightarrow> Inr None
      | b # _ \<Rightarrow>
          (case b var of
             None \<Rightarrow> Inl (KeyError var)
           | Some d \<Rightarrow>
               (case d ''value'' of
                  None \<Rightarrow> Inl (KeyError ''value'')
                | Some uri \<Rightarrow> Inr (Some (rsplit_last uri)))))"

text \<open>The pattern \<open>first_qid(sparql_query(query, label))\<close> of the two resolvers.\<close>

definition ask :: "service \<Rightarrow> string \<Rightarrow> string \<Rightarrow> world \<Rightarrow> (exn + string option) \<times> world" where
  "ask svc query label w =
     (case sparql_query svc query label w of
        (Inl e, w') \<Rightarrow> (Inl e, w')
      | (Inr bs, w') \<Rightarrow> (first_qid bs ''item'', w'))"

section \<open>Resolution strategies\<close>

definition LABEL_LANG :: string where
  "LABEL_LANG = ''pl''"

definition viaf_query :: "string \<Rightarrow> string" where
  "viaf_query viaf_id =
     ''\<newline>    SELECT ?item WHERE {\<newline>      ?item wdt:P214 '' @ [CHR 0x22] @ viaf_id @ [CHR 0x22]
       @ '' .\<newline>    } LIMIT 1\<newline>    ''"

definition viaf_to_wikidata :: "service \<Rightarrow> string \<Rightarrow> world \<Rightarrow> (exn + string option) \<times> world" where
  "viaf_to_wikidata svc viaf_id w = ask svc (viaf_query viaf_id) viaf_id w"

text \<open>\<open>s.replace('"', '\\"')\<close>: a backslash before every double quote.\<close>

definition escape_quotes :: "string \<Rightarrow> string" where
  "escape_quotes s = concat (map (\<lambda>c. if c = CHR 0x22 then [CHR 0x5C, CHR 0x22] else [c]) s)"

definition author_query :: "string \<Rightarrow> string \<Rightarrow> string" where
  "author_query escaped author_qid =
     ''\<newline>        SELECT ?item WHERE {\<newline>          ?item rdfs:label '' @ [CHR 0x22] @ escaped
       @ [CHR 0x22] @ ''@'' @ LABEL_LANG @ '' ;\<newline>                wdt:P50 wd:'' @ author_qid
       @ '' .\<newline>        } LIMIT 1\<newline>        ''"

definition label_query :: "string \<Rightarrow> string" where
  "label_query escaped =
     ''\<newline>    SELECT ?item WHERE {\<newline>      ?item rdfs:label '' @ [CHR 0x22] @ escaped @ [CHR 0x22]
       @ ''@'' @ LABEL_LANG
       @ '' .\<newline>      ?item wdt:P31/wdt:P279* wd:Q7725634 .   # instance of (subclass of) written work\<newline>    } LIMIT 1\<newline>    ''"

definition full_title_query :: "string \<Rightarrow> string" where
  "full_title_query full_escaped =
     ''\<newline>        SELECT ?item WHERE {\<newline>          ?item rdfs:label '' @ [CHR 0x22] @ full_escaped
       @ [CHR 0x22] @ ''@'' @ LABEL_LANG
       @ '' .\<newline>          ?item wdt:P31/wdt:P279* wd:Q7725634 .\<newline>        } LIMIT 1\<newline>        ''"

text \<open>Python's truth value of a \<open>str | None\<close>: \<open>None\<close> and the empty string are false.\<close>

fun truthy :: "string option \<Rightarrow> bool" where
  "truthy None = False"
| "truthy (Some s) = (s \<noteq> [])"

definition title_to_wikidata ::
  "service \<Rightarrow> string \<Rightarrow> string option \<Rightarrow> world \<Rightarrow> (exn + string option) \<times> world" where
  "title_to_wikidata svc title author_qid w =
     (let short_title = normalize_title title;
          escaped = escape_quotes short_title
      in case (case author_qid of
                 None \<Rightarrow> (Inr None, w)
               | Some a \<Rightarrow>
                   if a \<noteq> [] then ask svc (author_query escaped a) escaped w
                   else (Inr None, w)) of
           (Inl e, w1) \<Rightarrow> (Inl e, w1)
         | (Inr r1, w1) \<Rightarrow>
             if truthy r1 then (Inr r1, w1)
             else
               (case ask svc (label_query escaped) escaped w1 of
                  (Inl e, w2) \<Rightarrow> (Inl e, w2)
                | (Inr result, w2) \<Rightarrow>
                    if truthy result then (Inr result, w2)
                    else
                      (let full_escaped = escape_quotes title
                       in if full_escaped \<noteq> escaped
                          then ask svc (full_title_query full_escaped) full_escaped w2
                          else (Inr result, w2))))"

section \<open>Pipeline driver\<close>

text \<open>The table that \<open>pd.read_csv\<close> gives: the column names in order, the label of each
  row (its position, unless the file makes pandas take the first field of every line as
  the label), and the rows, each a map from column name to cell.\<close>

type_synonym row = "string \<rightharpoonup> cell"

datatype label = IntLabel int | StrLabel string

record dataframe =
  columns :: "string list"
  index :: "label list"
  rows :: "row list"

text \<open>\<open>row.get(key, default)\<close> and \<open>str(value)\<close>.\<close>

definition row_get :: "row \<Rightarrow> string \<Rightarrow> cell \<Rightarrow> cell" where
  "row_get r key dflt = (case r key of None \<Rightarrow> dflt | Some c \<Rightarrow> c)"

fun py_str :: "cell \<Rightarrow> string" where
  "py_str (Text s) = s"
| "py_str NaN = ''nan''"
| "py_str PyNone = ''None''"

text \<open>The two caches and the two result lists of \<open>main\<close>.\<close>

record loop_state =
  author_cache :: "string \<rightharpoonup> string option"
  work_cache :: "string \<rightharpoonup> string option"
  author_qids :: "string option list"
  work_qids :: "string option list"

definition init_state :: loop_state where
  "init_state = \<lparr>author_cache = Map.empty, work_cache = Map.empty,
                  author_qids = [], work_qids = []\<rparr>"

text \<open>The first half of the loop body. The progress line reads \<open>row['author-name']\<close>,
  which raises when the table has no such column. The result carries the author's
  entity identifier for the second half.\<close>

definition author_step ::
  "service \<Rightarrow> row \<Rightarrow> loop_state \<Rightarrow> world \<Rightarrow> (exn + loop_state \<times> string option) \<times> world" where
  "author_step svc r st w =
     (let author_viaf = extract_viaf_id (row_get r ''author-ids'' (Text ''''))
      in case (case author_viaf of
                 None \<Rightarrow> (Inr st, w)
               | Some v \<Rightarrow>
                   if v \<noteq> [] \<and> author_cache st v = None
                   then (case r ''author-name'' of
                           None \<Rightarrow> (Inl (KeyError ''author-name''), w)
                         | Some _ \<Rightarrow>
                             (case viaf_to_wikidata svc v (w @ [Progress (Author v)]) of
                                (Inl e, w1) \<Rightarrow> (Inl e, w1)
                              | (Inr q, w1) \<Rightarrow>
                                  (Inr (st\<lparr>author_cache := (author_cache st)(v \<mapsto> q)\<rparr>),
                                   w1 @ [Sleep])))
                   else (Inr st, w)) of
           (Inl e, w1) \<Rightarrow> (Inl e, w1)
         | (Inr st1, w1) \<Rightarrow>
             (let author_qid =
                    (case author_viaf of
                       None \<Rightarrow> None
                     | Some v \<Rightarrow>
                         if v \<noteq> []
                         then (case author_cache st1 v of None \<Rightarrow> None | Some q \<Rightarrow> q)
                         else None)
              in (Inr (st1\<lparr>author_qids := author_qids st1 @ [author_qid]\<rparr>, author_qid), w1)))"

text \<open>\<open>work_qids.append(work_cache[cache_key])\<close>, after the lookup that fills the cache
  when the key is new.\<close>

definition cached_work ::
  "string \<Rightarrow> (world \<Rightarrow> (exn + string option) \<times> world) \<Rightarrow> loop_state \<Rightarrow> world
     \<Rightarrow> (exn + loop_state) \<times> world" where
  "cached_work cache_key resolve st w =
     (case (if work_cache st cache_key = None
            then (case resolve (w @ [Progress (Work cache_key)]) of
                    (Inl e, w1) \<Rightarrow> (Inl e, w1)
                  | (Inr q, w1) \<Rightarrow>
                      (Inr (st\<lparr>work_cache := (work_cache st)(cache_key \<mapsto> q)\<rparr>),
                       w1 @ [Sleep]))
            else (Inr st, w)) of
        (Inl e, w1) \<Rightarrow> (Inl e, w1)
      | (Inr st1, w1) \<Rightarrow>
          (case work_cache st1 cache_key of
             None \<Rightarrow> (Inl (KeyError cache_key), w1)
           | Some q \<Rightarrow> (Inr (st1\<lparr>work_qids := work_qids st1 @ [q]\<rparr>), w1)))"

text \<open>The second half of the loop body. The test \<open>if work_viaf:\<close> passes for an
  identifier that is neither \<open>None\<close> nor empty; the two branches that look up differ in
  the key and in the resolver only.\<close>

definition work_step ::
  "service \<Rightarrow> row \<Rightarrow> string option \<Rightarrow> loop_state \<Rightarrow> world \<Rightarrow> (exn + loop_state) \<times> world" where
  "work_step svc r author_qid st w =
     (let work_viaf = extract_viaf_id (row_get r ''title-ids'' (Text ''''));
          title = py_strip (py_str (row_get r ''title'' (Text '''')))
      in case (if truthy work_viaf then work_viaf else None) of
           Some v \<Rightarrow> cached_work (''viaf:'' @ v) (viaf_to_wikidata svc v) st w
         | None \<Rightarrow>
             if title \<noteq> [] \<and> title \<noteq> ''nan''
             then cached_work (''title:'' @ title) (title_to_wikidata svc title author_qid) st w
             else (Inr (st\<lparr>work_qids := work_qids st @ [None]\<rparr>), w))"

text \<open>The two halves together.\<close>

definition row_lookups ::
  "service \<Rightarrow> row \<Rightarrow> loop_state \<Rightarrow> world \<Rightarrow> (exn + loop_state) \<times> world" where
  "row_lookups svc r st w =
     (case author_step svc r st w of
        (Inl e, w1) \<Rightarrow> (Inl e, w1)
      | (Inr (st1, author_qid), w1) \<Rightarrow> work_step svc r author_qid st1 w1)"

text \<open>The loop body starts with \<open>row_num = f"[{i+1}/{len(df)}]"\<close>. Its text goes into
  the progress lines only, but \<open>i+1\<close> raises for a label that is text.\<close>

definition row_num_error :: "label \<Rightarrow> exn option" where
  "row_num_error i =
     (case i of
        IntLabel _ \<Rightarrow> None
      | StrLabel _ \<Rightarrow>
          Some (TypeError (''can only concatenate str (not '' @ [CHR 0x22] @ ''int''
                            @ [CHR 0x22] @ '') to str'')))"

definition process_row ::
  "service \<Rightarrow> label \<times> row \<Rightarrow> loop_state \<Rightarrow> world \<Rightarrow> (exn + loop_state) \<times> world" where
  "process_row svc ir st w =
     (case row_num_error (fst ir) of
        Some e \<Rightarrow> (Inl e, w)
      | None \<Rightarrow> row_lookups svc (snd ir) st w)"

text \<open>\<open>for i, row in df.iterrows()\<close>.\<close>

fun main_loop ::
  "service \<Rightarrow> (label \<times> row) list \<Rightarrow> loop_state \<Rightarrow> world \<Rightarrow> (exn + loop_state) \<times> world" where
  "main_loop svc [] st w = (Inr st, w)"
| "main_loop svc (ir # irs) st w =
     (case process_row svc ir st w of
        (Inl e, w1) \<Rightarrow> (Inl e, w1)
      | (Inr st1, w1) \<Rightarrow> main_loop svc irs st1 w1)"

text \<open>\<open>df[name] = values\<close>: a column of that name is overwritten where it stands, a new
  name is appended; a list of another length than the table raises. The \<open>None\<close> of an
  unresolved row is kept as it is here (pandas of some versions stores NaN in its place);
  both are written as the empty field.\<close>

fun qid_cell :: "string option \<Rightarrow> cell" where
  "qid_cell None = PyNone"
| "qid_cell (Some q) = Text q"

definition set_column :: "string \<Rightarrow> cell list \<Rightarrow> dataframe \<Rightarrow> exn + dataframe" where
  "set_column name vals df =
     (if length vals \<noteq> length (rows df)
      then Inl (ValueError ''Length of values does not match length of index'')
      else Inr (df\<lparr>columns := (if name \<in> set (columns df) then columns df
                               else columns df @ [name]),
                   rows := map (\<lambda>(r, v). r(name \<mapsto> v)) (zip (rows df) vals)\<rparr>))"

text \<open>\<open>main\<close>, from the table read to the table written.\<close>

definition main :: "service \<Rightarrow> dataframe \<Rightarrow> (exn + dataframe) \<times> world" where
  "main svc df =
     (case main_loop svc (zip (index df) (rows df)) init_state [] of
        (Inl e, w) \<Rightarrow> (Inl e, w)
      | (Inr st, w) \<Rightarrow>
          (case set_column ''author_wikidata_id'' (map qid_cell (author_qids st)) df of
             Inl e \<Rightarrow> (Inl e, w)
           | Inr df1 \<Rightarrow>
               (case set_column ''work_wikidata_id'' (map qid_cell (work_qids st)) df1 of
                  Inl e \<Rightarrow> (Inl e, w)
                | Inr df2 \<Rightarrow> (Inr df2, w))))"

section \<open>The two files\<close>

text \<open>A file of tab-separated values as pandas splits it: the names of the header, the
  label it gives to each line, and for each line the text of its fields by column.
  How a file is split into lines and fields (quoting, lines of another length) is
  outside the model, and so is what opening the files raises.\<close>

record tsv =
  header :: "string list"
  labels :: "label list"
  records :: "(string \<rightharpoonup> string) list"

text \<open>\<open>pd.read_csv(INPUT_FILE, sep="\t", dtype=str)\<close>: every field is kept as text,
  except that a field whose text is in pandas' list of missing values is read as NaN, as
  is a field that a short line leaves out.
  The list depends on the version of pandas and is a parameter; \<open>STR_NA_VALUES\<close> is the
  list of pandas 2.\<close>

definition STR_NA_VALUES :: "string list" where
  "STR_NA_VALUES =
     ['''', ''#N/A'', ''#N/A N/A'', ''#NA'', ''-1.#IND'', ''-1.#QNAN'', ''-NaN'', ''-nan'',
      ''1.#IND'', ''1.#QNAN'', ''<NA>'', ''N/A'', ''NA'', ''NULL'', ''NaN'', ''None'',
      ''n/a'', ''nan'', ''null'']"

definition read_field :: "string list \<Rightarrow> string \<Rightarrow> cell" where
  "read_field na s = (if s \<in> set na then NaN else Text s)"

definition read_csv :: "string list \<Rightarrow> tsv \<Rightarrow> dataframe" where
  "read_csv na f =
     \<lparr>columns = header f, index = labels f,
      rows = map (\<lambda>r c. if c \<in> set (header f)
                         then Some (case r c of None \<Rightarrow> NaN | Some s \<Rightarrow> read_field na s)
                         else None)
               (records f)\<rparr>"

text \<open>\<open>df.to_csv(OUTPUT_FILE, sep="\t", index=False)\<close>: the labels are not written, and a
  missing value is written as the empty field.\<close>

fun write_field :: "cell \<Rightarrow> string" where
  "write_field (Text s) = s"
| "write_field NaN = []"
| "write_field PyNone = []"

definition to_csv :: "dataframe \<Rightarrow> tsv" where
  "to_csv df =
     \<lparr>header = columns df, labels = [],
      records = map (\<lambda>r c. if c \<in> set (columns df) then map_option write_field (r c) else None)
                  (rows df)\<rparr>"

text \<open>\<open>main\<close> with its two files.\<close>

definition run_file :: "string list \<Rightarrow> service \<Rightarrow> tsv \<Rightarrow> (exn + tsv) \<times> world" where
  "run_file na svc f =
     (case main svc (read_csv na f) of
        (Inl e, w) \<Rightarrow> (Inl e, w)
      | (Inr df, w) \<Rightarrow> (Inr (to_csv df), w))"

section \<open>The fallback chain as a chain of steps\<close>

text \<open>The control flow of \<open>title_to_wikidata\<close> with its three requests named: a step
  whose identifier is true for Python ends the chain, and so does an exception.\<close>

definition author_constrained_step ::
  "service \<Rightarrow> string \<Rightarrow> string \<Rightarrow> world \<Rightarrow> (exn + string option) \<times> world" where
  "author_constrained_step svc label author w =
     ask svc (author_query (escape_quotes label) author) (escape_quotes label) w"

definition type_scoped_step ::
  "service \<Rightarrow> string \<Rightarrow> world \<Rightarrow> (exn + string option) \<times> world" where
  "type_scoped_step svc label w =
     ask svc (label_query (escape_quotes label)) (escape_quotes label) w"

definition type_scoped_retry ::
  "service \<Rightarrow> string \<Rightarrow> world \<Rightarrow> (exn + string option) \<times> world" where
  "type_scoped_retry svc label w =
     ask svc (full_title_query (escape_quotes label)) (escape_quotes label) w"

definition or_else ::
  "(exn + string option) \<times> world \<Rightarrow> (string option \<Rightarrow> world \<Rightarrow> (exn + string option) \<times> world)
     \<Rightarrow> (exn + string option) \<times> world" where
  "or_else step next_step =
     (case step of
        (Inl e, w) \<Rightarrow> (Inl e, w)
      | (Inr r, w) \<Rightarrow> if truthy r then (Inr r, w) else next_step r w)"

definition title_steps ::
  "service \<Rightarrow> string \<Rightarrow> string option \<Rightarrow> world \<Rightarrow> (exn + string option) \<times> world" where
  "title_steps svc title author_qid w =
     or_else
       (if truthy author_qid
        then author_constrained_step svc (normalize_title title) (the author_qid) w
        else (Inr None, w))
       (\<lambda>_ w1.
          or_else (type_scoped_step svc (normalize_title title) w1)
            (\<lambda>r3 w2.
               if normalize_title title \<noteq> title then type_scoped_retry svc title w2
               else (Inr r3, w2)))"

section \<open>The fallback chain in the words of the specification\<close>













section \<open>Keys and observations of a run\<close>

text \<open>The resolutions that a run announced, and the queries it sent, in order.\<close>

fun lookups :: "world \<Rightarrow> lookup list" where
  "lookups [] = []"
| "lookups (Progress l # w) = l # lookups w"
| "lookups (_ # w) = lookups w"

fun requests :: "world \<Rightarrow> string list" where
  "requests [] = []"
| "requests (Request q # w) = q # requests w"
| "requests (_ # w) = requests w"

text \<open>The key under which a row looks its author up, and the tagged key under which it
  looks its work up; a row may have neither.\<close>

definition author_key :: "row \<Rightarrow> string option" where
  "author_key r =
     (case extract_viaf_id (row_get r ''author-ids'' (Text '''')) of
        None \<Rightarrow> None
      | Some v \<Rightarrow> if v \<noteq> [] then Some v else None)"

definition work_key :: "row \<Rightarrow> string option" where
  "work_key r =
     (let work_viaf = extract_viaf_id (row_get r ''title-ids'' (Text ''''));
          title = py_strip (py_str (row_get r ''title'' (Text '''')))
      in case (if truthy work_viaf then work_viaf else None) of
           Some v \<Rightarrow> Some (''viaf:'' @ v)
         | None \<Rightarrow> if title \<noteq> [] \<and> title \<noteq> ''nan'' then Some (''title:'' @ title) else None)"

definition row_keys :: "row \<Rightarrow> lookup list" where
  "row_keys r =
     (case author_key r of None \<Rightarrow> [] | Some v \<Rightarrow> [Author v])
       @ (case work_key r of None \<Rightarrow> [] | Some k \<Rightarrow> [Work k])"

definition table_keys :: "row list \<Rightarrow> lookup set" where
  "table_keys rs = set (concat (map row_keys rs))"

text \<open>What a cache holds for the key of a row: nothing for a row without key.\<close>

definition cached :: "(string \<rightharpoonup> string option) \<Rightarrow> string option \<Rightarrow> string option" where
  "cached c key =
     (case key of None \<Rightarrow> None | Some k \<Rightarrow> (case c k of None \<Rightarrow> None | Some q \<Rightarrow> q))"

definition viaf_id_ok :: "string \<Rightarrow> bool" where
  "viaf_id_ok v = (v \<noteq> [] \<and> list_all is_digit v)"

section \<open>A service and a table to run the model on\<close>

definition entity :: "string \<Rightarrow> binding" where
  "entity qid = [''item'' \<mapsto> [''type'' \<mapsto> ''uri'',
                                ''value'' \<mapsto> ''http://www.wikidata.org/entity/'' @ qid]]"

text \<open>This service knows the author 12345 as Q1 and finds a work by the full title
  \<open>Lalka: tom 1\<close> only and the work \<open>Faraon\<close> as Q3; the fourth request made to it
  fails; it finds nothing else.\<close>

definition demo_service :: service where
  "demo_service n query =
     (if n = 3 then Raises (HTTPError ''500 Server Error'')
      else if query = viaf_query ''12345'' then Bindings [entity ''Q1'']
      else if query = full_title_query ''Lalka: tom 1'' then Bindings [entity ''Q2'']
      else if query = label_query ''Faraon'' then Bindings [entity ''Q3'']
      else Bindings [])"

definition demo_columns :: "string list" where
  "demo_columns = [''author-name'', ''author-ids'', ''title'', ''title-ids'']"

definition demo_row :: "string \<Rightarrow> cell \<Rightarrow> cell \<Rightarrow> cell \<Rightarrow> row" where
  "demo_row name author_ids title title_ids =
     [''author-name'' \<mapsto> Text name, ''author-ids'' \<mapsto> author_ids,
      ''title'' \<mapsto> title, ''title-ids'' \<mapsto> title_ids]"

definition demo_table :: dataframe where
  "demo_table =
     \<lparr>columns = demo_columns,
      index = [IntLabel 0, IntLabel 1, IntLabel 2],
      rows = [demo_row ''Prus'' (Text ''https://viaf.org/viaf/12345/'') (Text ''Lalka: tom 1'') NaN,
              demo_row ''Anonim'' NaN NaN NaN,
              demo_row ''Prus'' (Text ''https://viaf.org/viaf/12345/'') (Text ''Faraon'')
                (Text ''https://viaf.org/viaf/777/'')]\<rparr>"

text \<open>A table that has the two result columns already, as the output of an earlier run
  has.\<close>

definition rerun_table :: dataframe where
  "rerun_table =
     \<lparr>columns = demo_columns @ [''author_wikidata_id'', ''work_wikidata_id''],
      index = [IntLabel 0],
      rows = [(demo_row ''Prus'' (Text ''https://viaf.org/viaf/12345/'') NaN NaN)
                (''author_wikidata_id'' \<mapsto> Text ''Q999'', ''work_wikidata_id'' \<mapsto> NaN)]\<rparr>"

section \<open>What a resolver adds to the trace\<close>

text \<open>The later trace is the earlier one followed by requests from the set \<open>Q\<close> and by
  warnings: no progress line and no pause.\<close>

definition extends_by :: "string set \<Rightarrow> world \<Rightarrow> world \<Rightarrow> bool" where
  "extends_by Q w w' =
     (\<exists>evs. w' = w @ evs \<and> lookups evs = [] \<and> Sleep \<notin> set evs \<and> set (requests evs) \<subseteq> Q)"

definition title_queries :: "string set" where
  "title_queries =
     {q. (\<exists>e a. q = author_query e a) \<or> (\<exists>e. q = label_query e) \<or> (\<exists>e. q = full_title_query e)}"

text \<open>The two caches are exactly the resolutions announced so far, each announced
  once.\<close>

definition cache_inv :: "loop_state \<Rightarrow> world \<Rightarrow> bool" where
  "cache_inv st w =
     (distinct (lookups w)
      \<and> set (lookups w) = Author ` dom (author_cache st) \<union> Work ` dom (work_cache st))"

text \<open>The queries a run may send: the identifier query for a string of digits, and the
  three title queries.\<close>

definition all_queries :: "string set" where
  "all_queries = {q. \<exists>v. q = viaf_query v \<and> viaf_id_ok v} \<union> title_queries"


text \<open>The table that \<open>main\<close> writes for the final state of the loop: both assignments
  at once.\<close>

definition with_results :: "dataframe \<Rightarrow> loop_state \<Rightarrow> dataframe" where
  "with_results df st =
     df\<lparr>columns :=
          (let cs = (if ''author_wikidata_id'' \<in> set (columns df) then columns df
                     else columns df @ [''author_wikidata_id''])
           in if ''work_wikidata_id'' \<in> set cs then cs else cs @ [''work_wikidata_id'']),
        rows := map (\<lambda>(r, a, k). r(''author_wikidata_id'' \<mapsto> qid_cell a,
                                    ''work_wikidata_id'' \<mapsto> qid_cell k))
                  (zip (rows df) (zip (author_qids st) (work_qids st)))\<rparr>"

text \<open>What a run wrote, if it wrote: the column names, and the cell of a row.\<close>

definition written_columns :: "(exn + dataframe) \<times> world \<Rightarrow> string list option" where
  "written_columns res = (case fst res of Inl _ \<Rightarrow> None | Inr d \<Rightarrow> Some (columns d))"

definition written_cell :: "(exn + dataframe) \<times> world \<Rightarrow> nat \<Rightarrow> string \<Rightarrow> cell option" where
  "written_cell res i c =
     (case fst res of
        Inl _ \<Rightarrow> None
      | Inr d \<Rightarrow> if i < length (rows d) then (rows d ! i) c else None)"

text \<open>The state in which the loop ends on \<open>demo_table\<close> with \<open>demo_service\<close>.\<close>

definition demo_final :: loop_state where
  "demo_final =
     \<lparr>author_cache = [''12345'' \<mapsto> Some ''Q1''],
      work_cache = [''title:Lalka: tom 1'' \<mapsto> None, ''viaf:777'' \<mapsto> None],
      author_qids = [Some ''Q1'', None, Some ''Q1''],
      work_qids = [None, None, None]\<rparr>"


section \<open>Resolutions in the trace\<close>

text \<open>What a resolver does between two states of the trace: it sends the queries \<open>qs\<close>
  in this order and may print warnings; no progress line and no pause.\<close>

definition sends :: "world \<Rightarrow> world \<Rightarrow> string list \<Rightarrow> bool" where
  "sends w w' qs =
     (\<exists>evs. w' = w @ evs \<and> lookups evs = [] \<and> Sleep \<notin> set evs \<and> requests evs = qs)"

text \<open>One resolution as the run records it: the progress line for the key, what the
  resolver does, and the pause.\<close>

definition block :: "lookup \<times> world \<Rightarrow> world" where
  "block b = Progress (fst b) # snd b @ [Sleep]"

text \<open>What the resolver of a key does: no progress line and no pause of its own, and
  the requests of that key. An author identifier and an identifier-tagged work key send
  the identifier query, once. A title-tagged key sends the queries of the fallback chain
  for that title from the first on, at least one, with or without the query of step 2.\<close>

definition resolves :: "lookup \<Rightarrow> world \<Rightarrow> bool" where
  "resolves l evs =
     (lookups evs = [] \<and> Sleep \<notin> set evs \<and> requests evs \<noteq> []
      \<and> (case l of
           Author v \<Rightarrow> requests evs = [viaf_query v]
         | Work k \<Rightarrow>
             (\<exists>v. k = ''viaf:'' @ v \<and> requests evs = [viaf_query v])
           \<or> (\<exists>t a. k = ''title:'' @ t
                  \<and> (prefix (requests evs)
                        [author_query (escape_quotes (normalize_title t)) a,
                         label_query (escape_quotes (normalize_title t)),
                         full_title_query (escape_quotes t)]
                      \<or> prefix (requests evs)
                        [label_query (escape_quotes (normalize_title t)),
                         full_title_query (escape_quotes t)]))))"

text \<open>What one half of the loop body adds to the trace: nothing, or one resolution,
  which lacks its pause when the resolver raised.\<close>

definition emits :: "bool \<Rightarrow> world \<Rightarrow> world \<Rightarrow> bool" where
  "emits failed w w' =
     (w' = w
      \<or> (\<exists>l evs. resolves l evs
             \<and> w' = w @ (if failed then Progress l # evs else block (l, evs))))"

text \<open>A trace of resolutions: whole ones, and after them the one that raised, if the run
  failed in one.\<close>

definition blocked :: "bool \<Rightarrow> world \<Rightarrow> bool" where
  "blocked failed w =
     (\<exists>bs tl. w = concat (map block bs) @ tl
        \<and> list_all (\<lambda>b. resolves (fst b) (snd b)) bs
        \<and> (tl = [] \<or> failed \<and> (\<exists>l evs. tl = Progress l # evs \<and> resolves l evs)))"

section \<open>The identifier extractor returns the first embedded identifier\<close>

lemma search_viaf_digits:
  "search_viaf s = Some v \<Longrightarrow> v \<noteq> [] \<and> (\<forall>c \<in> set v. is_digit c)"
proof (induction s)
  case Nil then show ?case by simp
next
  case (Cons a s)
  then show ?case
    by (auto simp: viaf_match_at_def split: if_splits dest: set_takeWhileD)
qed

lemma viaf_match_at_decompose:
  assumes "viaf_match_at s"
  shows "\<exists>d r. is_digit d \<and> s = viaf_prefix @ d # r"
proof -
  from assms have t: "take (length viaf_prefix) s = viaf_prefix"
    and n: "takeWhile is_digit (drop (length viaf_prefix) s) \<noteq> []"
    by (simp_all add: viaf_match_at_def)
  from n obtain d r where dr: "drop (length viaf_prefix) s = d # r" and "is_digit d"
    by (cases "drop (length viaf_prefix) s") (auto split: if_splits)
  have "s = take (length viaf_prefix) s @ drop (length viaf_prefix) s" by simp
  with t dr have "s = viaf_prefix @ d # r" by metis
  with \<open>is_digit d\<close> show ?thesis by blast
qed

lemma search_viaf_no_match:
  "\<nexists>p d r. is_digit d \<and> s = p @ viaf_prefix @ d # r \<Longrightarrow> search_viaf s = None"
proof (induction s)
  case Nil then show ?case by simp
next
  case (Cons a s)
  have "\<not> viaf_match_at (a # s)"
  proof
    assume "viaf_match_at (a # s)"
    then obtain d r where "is_digit d" "a # s = [] @ viaf_prefix @ d # r"
      using viaf_match_at_decompose by fastforce
    with Cons.prems show False by blast
  qed
  moreover have "\<nexists>p d r. is_digit d \<and> s = p @ viaf_prefix @ d # r"
  proof
    assume "\<exists>p d r. is_digit d \<and> s = p @ viaf_prefix @ d # r"
    then obtain p d r where "is_digit d" "s = p @ viaf_prefix @ d # r" by blast
    then have "a # s = (a # p) @ viaf_prefix @ d # r" by simp
    with \<open>is_digit d\<close> Cons.prems show False by blast
  qed
  ultimately show ?case using Cons.IH by simp
qed

lemma search_viaf_first:
  assumes "viaf_match_at t" and "\<forall>i<length p. \<not> viaf_match_at (drop i (p @ t))"
  shows "search_viaf (p @ t) = Some (takeWhile is_digit (drop (length viaf_prefix) t))"
  using assms
proof (induction p)
  case Nil
  then show ?case by (cases t) (simp_all add: viaf_match_at_def viaf_prefix_def)
next
  case (Cons a p)
  from Cons.prems(2) have "\<not> viaf_match_at (drop 0 ((a # p) @ t))" by blast
  then have 1: "\<not> viaf_match_at (a # p @ t)" by simp
  have "\<forall>i<length p. \<not> viaf_match_at (drop i (p @ t))"
  proof (intro allI impI)
    fix i assume "i < length p"
    then have "Suc i < length (a # p)" by simp
    with Cons.prems(2) have "\<not> viaf_match_at (drop (Suc i) ((a # p) @ t))" by blast
    then show "\<not> viaf_match_at (drop i (p @ t))" by simp
  qed
  with Cons.IH Cons.prems(1) 1 show ?case by simp
qed

lemma takeWhile_run:
  "\<forall>c \<in> set ds. P c \<Longrightarrow> r = [] \<or> \<not> P (hd r) \<Longrightarrow> takeWhile P (ds @ r) = ds"
  by (cases r) (simp_all add: takeWhile_append2)

lemma strip_with_keeps: "c \<in> set s \<Longrightarrow> \<not> p c \<Longrightarrow> c \<in> set (strip_with p s)"
proof -
  have keep: "\<And>xs. c \<in> set xs \<Longrightarrow> \<not> p c \<Longrightarrow> c \<in> set (dropWhile p xs)"
    by (metis UnE set_append set_takeWhileD takeWhile_dropWhile_id)
  assume "c \<in> set s" "\<not> p c"
  then have "c \<in> set (rev (dropWhile p s))" using keep by simp
  then have "c \<in> set (dropWhile p (rev (dropWhile p s)))" using keep \<open>\<not> p c\<close> by blast
  then show ?thesis by (simp add: strip_with_def)
qed

lemma py_strip_of_match:
  "py_strip (p @ viaf_prefix @ t) \<noteq> '''' \<and> py_strip (p @ viaf_prefix @ t) \<noteq> ''NA''"
proof -
  have "CHR ''v'' \<in> set (p @ viaf_prefix @ t)" by (simp add: viaf_prefix_def)
  moreover have "\<not> is_space CHR ''v''" by (simp add: is_space_def)
  ultimately have "CHR ''v'' \<in> set (py_strip (p @ viaf_prefix @ t))"
    unfolding py_strip_def by (rule strip_with_keeps)
  then show ?thesis by auto
qed

lemma extract_viaf_id_match:
  assumes "ds \<noteq> []" "\<forall>c \<in> set ds. is_digit c" "r = [] \<or> \<not> is_digit (hd r)"
    and "\<forall>i<length p. \<not> viaf_match_at (drop i (p @ viaf_prefix @ ds @ r))"
  shows "extract_viaf_id (Text (p @ viaf_prefix @ ds @ r)) = Some ds"
proof -
  have tw: "takeWhile is_digit (ds @ r) = ds" using assms(2,3) by (rule takeWhile_run)
  with assms(1) have m: "viaf_match_at (viaf_prefix @ ds @ r)"
    by (simp add: viaf_match_at_def)
  from search_viaf_first [OF m assms(4)] tw
  have "search_viaf (p @ viaf_prefix @ ds @ r) = Some ds" by simp
  with py_strip_of_match [of p "ds @ r"] show ?thesis by simp
qed

text \<open>
  Claim C6. The extractor returns nothing for a value that is no string, for the empty
  string, for the placeholder \<open>NA\<close> and for a text in which \<open>viaf.org/viaf/\<close> is
  nowhere followed by a digit; for a text \<open>p @ viaf.org/viaf/ @ ds @ r\<close> whose digits
  \<open>ds\<close> are not followed by another digit, and in which the pattern does not match
  before \<open>p\<close> ends, it returns exactly \<open>ds\<close>. It is a total function: no input
  makes it raise.
\<close>

theorem extract_viaf_id_spec:
  "extract_viaf_id NaN = None \<and> extract_viaf_id PyNone = None
   \<and> extract_viaf_id (Text '''') = None \<and> extract_viaf_id (Text ''NA'') = None
   \<and> ((\<nexists>p d r. is_digit d \<and> url = p @ viaf_prefix @ d # r)
        \<longrightarrow> extract_viaf_id (Text url) = None)
   \<and> (ds \<noteq> [] \<and> (\<forall>c \<in> set ds. is_digit c) \<and> (r = [] \<or> \<not> is_digit (hd r))
        \<and> (\<forall>i<length p. \<not> viaf_match_at (drop i (p @ viaf_prefix @ ds @ r)))
        \<longrightarrow> extract_viaf_id (Text (p @ viaf_prefix @ ds @ r)) = Some ds)"
proof -
  have "extract_viaf_id (Text '''') = None" by (simp add: py_strip_def strip_with_def)
  moreover have "extract_viaf_id (Text ''NA'') = None"
    by (simp add: py_strip_def strip_with_def is_space_def)
  moreover have "(\<nexists>p d r. is_digit d \<and> url = p @ viaf_prefix @ d # r)
        \<longrightarrow> extract_viaf_id (Text url) = None"
    using search_viaf_no_match by simp
  ultimately show ?thesis using extract_viaf_id_match by simp
qed

theorem extract_viaf_id_spec_witness:
  "extract_viaf_id (Text ''https://viaf.org/viaf/12345/'') = Some ''12345''
   \<and> extract_viaf_id (Text ''see catalogue'') = None"
proof -
  have no: "\<nexists>p d r. is_digit d \<and> ''see catalogue'' = p @ viaf_prefix @ d # r"
  proof
    assume "\<exists>p d r. is_digit d \<and> ''see catalogue'' = p @ viaf_prefix @ d # r"
    then obtain p d r where "''see catalogue'' = p @ viaf_prefix @ d # r" by blast
    then have "length ''see catalogue'' = length (p @ viaf_prefix @ d # r)" by simp
    then show False by (simp add: viaf_prefix_def)
  qed
  have first: "\<forall>i<length ''https://''.
      \<not> viaf_match_at (drop i (''https://'' @ viaf_prefix @ ''12345'' @ ''/''))"
    by (simp add: viaf_match_at_def viaf_prefix_def All_less_Suc eval_nat_numeral)
  have dig: "''12345'' \<noteq> [] \<and> (\<forall>c \<in> set ''12345''. is_digit c)
      \<and> (''/'' = [] \<or> \<not> is_digit (hd ''/''))"
    by (simp add: is_digit_def)
  from extract_viaf_id_spec [of "''see catalogue''" "''12345''" "''/''" "''https://''"] no first dig
  show ?thesis by (simp add: viaf_prefix_def)
qed

section \<open>Title normalization\<close>

lemma strip_with_idem: "strip_with p (strip_with p s) = strip_with p s"
proof -
  define u where "u = dropWhile p s"
  define r where "r = rev (dropWhile p (rev u))"
  have hu: "u = [] \<or> \<not> p (hd u)" unfolding u_def by (metis hd_dropWhile)
  have "dropWhile p r = r"
  proof (cases "r = []")
    case True then show ?thesis by simp
  next
    case False
    have "\<exists>t. u = r @ t" unfolding r_def
      by (metis append_take_drop_id dropWhile_eq_drop rev_append rev_rev_ident)
    then obtain t where "u = r @ t" ..
    with False have "hd r = hd u" by simp
    moreover from False \<open>u = r @ t\<close> have "u \<noteq> []" by simp
    ultimately have "\<not> p (hd r)" using hu by simp
    with False show ?thesis by (cases r) auto
  qed
  moreover have "dropWhile p (rev r) = rev r" unfolding r_def by (simp add: dropWhile_idem)
  ultimately show ?thesis unfolding strip_with_def u_def[symmetric] r_def[symmetric] by simp
qed

lemma split_head_no_sep: "c \<in> set (split_head s) \<Longrightarrow> \<not> is_sep c"
proof (induction s)
  case Nil then show ?case by simp
next
  case (Cons a s)
  show ?case
  proof (cases "sep_match_at (a # s)")
    case True with Cons show ?thesis by simp
  next
    case False
    have "\<not> is_sep a"
    proof
      assume "is_sep a"
      then have "\<not> is_space a" by (auto simp: is_sep_def is_space_def)
      with \<open>is_sep a\<close> have "sep_match_at (a # s)" by (simp add: sep_match_at_def)
      with False show False by simp
    qed
    with Cons False show ?thesis by auto
  qed
qed

lemma sep_match_at_has_sep: "sep_match_at s \<Longrightarrow> \<exists>c \<in> set s. is_sep c"
  unfolding sep_match_at_def
  by (auto split: list.splits dest: set_dropWhileD) (metis list.set_intros(1) set_dropWhileD)

lemma split_head_id: "\<forall>c \<in> set s. \<not> is_sep c \<Longrightarrow> split_head s = s"
proof (induction s)
  case Nil then show ?case by simp
next
  case (Cons a s)
  then have "\<not> sep_match_at (a # s)" using sep_match_at_has_sep by blast
  with Cons show ?case by simp
qed

lemma set_strip_with: "set (strip_with p s) \<subseteq> set s"
  unfolding strip_with_def by (auto dest!: set_dropWhileD)

lemma normalize_title_no_sep: "c \<in> set (normalize_title t) \<Longrightarrow> \<not> is_sep c"
  unfolding normalize_title_def strip_chars_def
  using set_strip_with split_head_no_sep by blast

text \<open>A title without colon and semicolon loses the spaces, full stops and commas at
  both of its ends and nothing else.\<close>

lemma normalize_title_plain:
  "\<forall>c \<in> set t. \<not> is_sep c \<Longrightarrow> normalize_title t = strip_chars '' .,'' t"
  by (simp add: normalize_title_def split_head_id)

text \<open>A title with a separator is cut before the first one, and the whitespace that
  stands directly before the separator goes with it.\<close>

lemma sep_not_space: "is_sep c \<Longrightarrow> \<not> is_space c"
  by (auto simp: is_sep_def is_space_def)

lemma sep_match_at_prefix:
  assumes "is_sep c" and "\<forall>x \<in> set p. \<not> is_sep x"
  shows "sep_match_at (p @ c # rest) \<longleftrightarrow> (\<forall>x \<in> set p. is_space x)"
proof (cases "\<forall>x \<in> set p. is_space x")
  case True
  then have "dropWhile is_space (p @ c # rest) = dropWhile is_space (c # rest)"
    by (simp add: dropWhile_append2)
  with assms(1) True show ?thesis by (simp add: sep_match_at_def sep_not_space)
next
  case False
  then have ne: "dropWhile is_space p \<noteq> []" by (simp add: dropWhile_eq_Nil_conv)
  then obtain y ys where y: "dropWhile is_space p = y # ys" by (cases "dropWhile is_space p") auto
  then have "y \<in> set p" by (metis list.set_intros(1) set_dropWhileD)
  with assms(2) have "\<not> is_sep y" by blast
  moreover from False have "dropWhile is_space (p @ c # rest) = dropWhile is_space p @ c # rest"
    by (metis dropWhile_append1)
  ultimately show ?thesis using False y by (simp add: sep_match_at_def)
qed

lemma split_head_cut:
  assumes "is_sep c" and "\<forall>x \<in> set p. \<not> is_sep x"
  shows "split_head (p @ c # rest) = rev (dropWhile is_space (rev p))"
  using assms(2)
proof (induction p)
  case Nil
  from assms(1) have "sep_match_at (c # rest)" by (simp add: sep_match_at_def sep_not_space)
  then show ?case by simp
next
  case (Cons a p)
  show ?case
  proof (cases "\<forall>x \<in> set (a # p). is_space x")
    case True
    with sep_match_at_prefix [OF assms(1) Cons.prems, of rest]
    have "sep_match_at ((a # p) @ c # rest)" by blast
    moreover from True have "dropWhile is_space (rev (a # p)) = []"
      by (simp add: dropWhile_eq_Nil_conv)
    ultimately show ?thesis by simp
  next
    case False
    with sep_match_at_prefix [OF assms(1) Cons.prems, of rest]
    have nm: "\<not> sep_match_at ((a # p) @ c # rest)" by blast
    from Cons have ih: "split_head (p @ c # rest) = rev (dropWhile is_space (rev p))" by simp
    have "rev (dropWhile is_space (rev p @ [a])) = a # rev (dropWhile is_space (rev p))"
    proof (cases "\<forall>x \<in> set p. is_space x")
      case True
      with False have "\<not> is_space a" by simp
      moreover from True have "dropWhile is_space (rev p @ [a]) = dropWhile is_space [a]"
        by (intro dropWhile_append2) simp
      moreover from True have "dropWhile is_space (rev p) = []"
        by (simp add: dropWhile_eq_Nil_conv)
      ultimately show ?thesis by simp
    next
      case np: False
      then have "dropWhile is_space (rev p @ [a]) = dropWhile is_space (rev p) @ [a]"
        by (metis dropWhile_append1 set_rev)
      then show ?thesis by simp
    qed
    with nm ih show ?thesis by simp
  qed
qed

lemma normalize_title_cut:
  "is_sep c \<Longrightarrow> \<forall>x \<in> set p. \<not> is_sep x \<Longrightarrow>
   normalize_title (p @ c # rest) = strip_chars '' .,'' (rev (dropWhile is_space (rev p)))"
  by (simp add: normalize_title_def split_head_cut)

text \<open>
  Claim C7. Normalizing a normalized title changes nothing; \<open>Coningsby: or, The New
  Generation\<close> becomes \<open>Coningsby\<close>, and \<open>Pan Tadeusz\<close> stays as it is.
\<close>

theorem normalize_title_idempotent:
  "normalize_title (normalize_title t) = normalize_title t
   \<and> normalize_title ''Coningsby: or, The New Generation'' = ''Coningsby''
   \<and> normalize_title ''Pan Tadeusz'' = ''Pan Tadeusz''"
proof -
  have "split_head (normalize_title t) = normalize_title t"
    using normalize_title_no_sep by (intro split_head_id) blast
  then have "normalize_title (normalize_title t) = normalize_title t"
    by (simp add: normalize_title_def strip_chars_def strip_with_idem)
  moreover have "normalize_title ''Coningsby: or, The New Generation'' = ''Coningsby''"
    by (simp add: normalize_title_def strip_chars_def strip_with_def sep_match_at_def
        is_sep_def is_space_def)
  moreover have "normalize_title ''Pan Tadeusz'' = ''Pan Tadeusz''"
    by (simp add: normalize_title_def strip_chars_def strip_with_def sep_match_at_def
        is_sep_def is_space_def)
  ultimately show ?thesis by simp
qed

theorem normalize_title_idempotent_witness:
  "normalize_title (normalize_title ''Lalka: tom 1'') = ''Lalka''"
proof -
  have "normalize_title ''Lalka: tom 1'' = ''Lalka''"
    by (simp add: normalize_title_def strip_chars_def strip_with_def sep_match_at_def
        is_sep_def is_space_def)
  with normalize_title_idempotent [of "''Lalka: tom 1''"] show ?thesis by simp
qed

text \<open>
  Claim C8 says that normalization trims at the end only and keeps what stands before
  the first character that is no punctuation. The comment in the source says the same
  (\<open>Remove trailing punctuation\<close>), but the call is \<open>strip\<close>, which trims both ends: the
  leading ellipsis of this title is lost.
\<close>

theorem normalize_title_trims_front:
  "normalize_title ''... i przyszli'' = ''i przyszli''"
  by (simp add: normalize_title_def strip_chars_def strip_with_def sep_match_at_def
      is_sep_def is_space_def)

section \<open>The query service client\<close>



section \<open>Work resolution by title\<close>

lemma escape_quotes_Cons:
  "escape_quotes (c # s) = (if c = CHR 0x22 then [CHR 0x5C, CHR 0x22] else [c]) @ escape_quotes s"
  by (simp add: escape_quotes_def)

lemma escape_quotes_Nil: "escape_quotes [] = []"
  by (simp add: escape_quotes_def)

lemma escape_quotes_no_leading_quote: "escape_quotes s \<noteq> CHR 0x22 # t"
  by (cases s) (simp_all add: escape_quotes_Cons escape_quotes_Nil)

lemma escape_quotes_eq_Nil: "escape_quotes s = [] \<longleftrightarrow> s = []"
  by (cases s) (simp_all add: escape_quotes_Cons escape_quotes_Nil)

lemma escape_quotes_inj: "escape_quotes a = escape_quotes b \<Longrightarrow> a = b"
proof (induction a arbitrary: b)
  case Nil
  then show ?case by (metis escape_quotes_Nil escape_quotes_eq_Nil)
next
  case (Cons x a)
  from Cons.prems have "b \<noteq> []"
    by (metis escape_quotes_Nil escape_quotes_eq_Nil list.distinct(1))
  then obtain y b' where b: "b = y # b'" by (cases b) auto
  show ?case
  proof (cases "x = CHR 0x22")
    case True
    show ?thesis
    proof (cases "y = CHR 0x22")
      case True
      with \<open>x = CHR 0x22\<close> Cons.prems b have "escape_quotes a = escape_quotes b'"
        by (simp add: escape_quotes_Cons)
      with Cons.IH True \<open>x = CHR 0x22\<close> b show ?thesis by simp
    next
      case False
      with \<open>x = CHR 0x22\<close> Cons.prems b have "CHR 0x22 # escape_quotes a = escape_quotes b'"
        by (simp add: escape_quotes_Cons)
      then show ?thesis using escape_quotes_no_leading_quote by metis
    qed
  next
    case False
    show ?thesis
    proof (cases "y = CHR 0x22")
      case True
      with False Cons.prems b have "escape_quotes a = CHR 0x22 # escape_quotes b'"
        by (simp add: escape_quotes_Cons)
      then show ?thesis using escape_quotes_no_leading_quote by metis
    next
      case yq: False
      with False Cons.prems b have "x = y \<and> escape_quotes a = escape_quotes b'"
        by (simp add: escape_quotes_Cons)
      with Cons.IH b show ?thesis by simp
    qed
  qed
qed

lemma title_to_wikidata_or_else:
  "title_to_wikidata svc title author_qid w = title_steps svc title author_qid w"
proof -
  have neq: "escape_quotes title \<noteq> escape_quotes (normalize_title title)
      \<longleftrightarrow> normalize_title title \<noteq> title"
    using escape_quotes_inj by metis
  show ?thesis
  proof (cases author_qid)
    case None
    then show ?thesis
      unfolding title_to_wikidata_def title_steps_def or_else_def Let_def
        type_scoped_step_def type_scoped_retry_def neq
      by (simp split: prod.splits sum.splits)
  next
    case (Some a)
    then show ?thesis
      unfolding title_to_wikidata_def title_steps_def or_else_def Let_def
        type_scoped_step_def type_scoped_retry_def author_constrained_step_def neq
      by (simp split: prod.splits sum.splits)
  qed
qed

section \<open>What the resolvers add to the trace\<close>


lemma lookups_append: "lookups (a @ b) = lookups a @ lookups b"
  by (induction a rule: lookups.induct) simp_all

lemma requests_append: "requests (a @ b) = requests a @ requests b"
  by (induction a rule: requests.induct) simp_all

lemma extends_by_refl: "extends_by Q w w"
  by (simp add: extends_by_def)

lemma extends_by_trans:
  assumes "extends_by Q w w1" "extends_by Q w1 w2"
  shows "extends_by Q w w2"
proof -
  from assms(1) obtain e1 where 1: "w1 = w @ e1" "lookups e1 = []" "Sleep \<notin> set e1"
    "set (requests e1) \<subseteq> Q" unfolding extends_by_def by blast
  from assms(2) obtain e2 where 2: "w2 = w1 @ e2" "lookups e2 = []" "Sleep \<notin> set e2"
    "set (requests e2) \<subseteq> Q" unfolding extends_by_def by blast
  from 1 2 have "w2 = w @ (e1 @ e2)" "lookups (e1 @ e2) = []" "Sleep \<notin> set (e1 @ e2)"
    "set (requests (e1 @ e2)) \<subseteq> Q"
    by (simp_all add: lookups_append requests_append)
  then show ?thesis unfolding extends_by_def by blast
qed

lemma extends_by_mono: "extends_by Q w w' \<Longrightarrow> Q \<subseteq> Q' \<Longrightarrow> extends_by Q' w w'"
  unfolding extends_by_def by blast

lemma extends_by_lookups: "extends_by Q w w' \<Longrightarrow> lookups w' = lookups w"
  unfolding extends_by_def by (auto simp: lookups_append)

lemma extends_by_requests:
  "extends_by Q w w' \<Longrightarrow> set (requests w') \<subseteq> set (requests w) \<union> Q"
  unfolding extends_by_def by (auto simp: requests_append)

lemma ask_extends: "ask svc q l w = (r, w') \<Longrightarrow> extends_by {q} w w'"
  unfolding ask_def sparql_query_def sparql_request_def extends_by_def
  by (auto split: reply.splits)

lemma viaf_to_wikidata_extends:
  "viaf_to_wikidata svc v w = (r, w') \<Longrightarrow> extends_by {viaf_query v} w w'"
  unfolding viaf_to_wikidata_def by (rule ask_extends)

lemma or_else_extends:
  assumes "or_else (r0, w0) nxt = (r, w')" and "extends_by Q w w0"
    and "\<And>x w1 y w2. nxt x w1 = (y, w2) \<Longrightarrow> extends_by Q w1 w2"
  shows "extends_by Q w w'"
proof (cases r0)
  case (Inl e)
  with assms(1,2) show ?thesis by (simp add: or_else_def)
next
  case (Inr x)
  show ?thesis
  proof (cases "truthy x")
    case True
    with Inr assms(1,2) show ?thesis by (simp add: or_else_def)
  next
    case False
    with Inr assms(1) have "nxt x w0 = (r, w')" by (simp add: or_else_def)
    then have "extends_by Q w0 w'" by (rule assms(3))
    with assms(2) show ?thesis by (rule extends_by_trans)
  qed
qed

lemma title_to_wikidata_extends:
  assumes "title_to_wikidata svc title aq w = (r, w')"
  shows "extends_by title_queries w w'"
proof -
  have step: "\<And>q l w0 r0 w1. ask svc q l w0 = (r0, w1) \<Longrightarrow> q \<in> title_queries
      \<Longrightarrow> extends_by title_queries w0 w1"
    using ask_extends extends_by_mono by (metis empty_subsetI insert_subset)
  have a: "\<And>e a. author_query e a \<in> title_queries" and l: "\<And>e. label_query e \<in> title_queries"
    and f: "\<And>e. full_title_query e \<in> title_queries"
    by (auto simp: title_queries_def)
  let ?first = "if truthy aq
        then author_constrained_step svc (normalize_title title) (the aq) w
        else (Inr None, w)"
  have step': "\<And>q l w0. q \<in> title_queries \<Longrightarrow> extends_by title_queries w0 (snd (ask svc q l w0))"
    using step by (metis prod.collapse)
  have first: "extends_by title_queries w (snd ?first)"
    by (cases "truthy aq") (simp_all add: author_constrained_step_def extends_by_refl step' a)
  from assms have "or_else (fst ?first, snd ?first)
       (\<lambda>_ w1.
          or_else (type_scoped_step svc (normalize_title title) w1)
            (\<lambda>r3 w2.
               if normalize_title title \<noteq> title then type_scoped_retry svc title w2
               else (Inr r3, w2))) = (r, w')"
    by (simp add: title_to_wikidata_or_else title_steps_def)
  then show ?thesis
  proof (rule or_else_extends [OF _ first])
    fix x w1 y w2
    assume 2: "or_else (type_scoped_step svc (normalize_title title) w1)
            (\<lambda>r3 w2.
               if normalize_title title \<noteq> title then type_scoped_retry svc title w2
               else (Inr r3, w2)) = (y, w2)"
    obtain r3 w3 where 3: "type_scoped_step svc (normalize_title title) w1 = (r3, w3)"
      by (cases "type_scoped_step svc (normalize_title title) w1")
    then have e3: "extends_by title_queries w1 w3"
      unfolding type_scoped_step_def by (rule step) (rule l)
    from 2 3 have 4: "or_else (r3, w3) (\<lambda>r3 w2.
               if normalize_title title \<noteq> title then type_scoped_retry svc title w2
               else (Inr r3, w2)) = (y, w2)" by simp
    show "extends_by title_queries w1 w2"
    proof (rule or_else_extends [OF 4 e3])
      fix x' w1' y' w2'
      assume "(if normalize_title title \<noteq> title then type_scoped_retry svc title w1'
               else (Inr x', w1')) = (y', w2')"
      then show "extends_by title_queries w1' w2'"
        by (auto simp: type_scoped_retry_def extends_by_refl split: if_splits intro: step f)
    qed
  qed
qed

section \<open>The chain of the specification\<close>









lemma requests_length: "requests_made w = length (requests w)"
  unfolding requests_made_def by (induction w rule: requests.induct) simp_all









section \<open>The loop body, by the keys of the row\<close>

lemma extract_viaf_id_ok: "extract_viaf_id c = Some v \<Longrightarrow> viaf_id_ok v"
  by (cases c) (auto simp: viaf_id_ok_def list_all_iff split: if_splits dest: search_viaf_digits)

lemma author_key_eq: "author_key r = extract_viaf_id (row_get r ''author-ids'' (Text ''''))"
  using extract_viaf_id_ok
  by (auto simp: author_key_def viaf_id_ok_def split: option.splits)

lemma author_key_ok: "author_key r = Some v \<Longrightarrow> viaf_id_ok v"
  by (simp add: author_key_eq extract_viaf_id_ok)

text \<open>The first half of the loop body, by the key of the row.\<close>

lemma author_step_no_key:
  "author_key r = None \<Longrightarrow>
   author_step svc r st w = (Inr (st\<lparr>author_qids := author_qids st @ [None]\<rparr>, None), w)"
  by (simp add: author_step_def author_key_eq[symmetric])

lemma author_step_hit:
  "author_key r = Some v \<Longrightarrow> author_cache st v = Some q \<Longrightarrow>
   author_step svc r st w = (Inr (st\<lparr>author_qids := author_qids st @ [q]\<rparr>, q), w)"
  using author_key_ok [of r v]
  by (simp add: author_step_def author_key_eq[symmetric] viaf_id_ok_def)

lemma author_step_miss:
  "author_key r = Some v \<Longrightarrow> author_cache st v = None \<Longrightarrow>
   author_step svc r st w =
     (case r ''author-name'' of
        None \<Rightarrow> (Inl (KeyError ''author-name''), w)
      | Some _ \<Rightarrow>
          (case viaf_to_wikidata svc v (w @ [Progress (Author v)]) of
             (Inl e, w1) \<Rightarrow> (Inl e, w1)
           | (Inr q, w1) \<Rightarrow>
               (Inr (st\<lparr>author_cache := (author_cache st)(v \<mapsto> q),
                        author_qids := author_qids st @ [q]\<rparr>, q), w1 @ [Sleep])))"
  using author_key_ok [of r v]
  by (simp add: author_step_def author_key_eq[symmetric] viaf_id_ok_def
      split: option.splits prod.splits sum.splits)


lemma extract_truthy:
  "(if truthy (extract_viaf_id c) then extract_viaf_id c else None) = extract_viaf_id c"
proof (cases "extract_viaf_id c")
  case None then show ?thesis by simp
next
  case (Some v)
  then have "viaf_id_ok v" by (rule extract_viaf_id_ok)
  with Some show ?thesis by (simp add: viaf_id_ok_def)
qed

lemma cached_work_hit:
  "work_cache st k = Some q \<Longrightarrow>
   cached_work k resolve st w = (Inr (st\<lparr>work_qids := work_qids st @ [q]\<rparr>), w)"
  by (simp add: cached_work_def)

lemma cached_work_miss:
  "work_cache st k = None \<Longrightarrow>
   cached_work k resolve st w =
     (case resolve (w @ [Progress (Work k)]) of
        (Inl e, w1) \<Rightarrow> (Inl e, w1)
      | (Inr q, w1) \<Rightarrow>
          (Inr (st\<lparr>work_cache := (work_cache st)(k \<mapsto> q),
                   work_qids := work_qids st @ [q]\<rparr>), w1 @ [Sleep]))"
  by (simp add: cached_work_def split: prod.splits sum.splits)

lemma work_step_viaf:
  "extract_viaf_id (row_get r ''title-ids'' (Text '''')) = Some v \<Longrightarrow>
   work_step svc r aq st w = cached_work (''viaf:'' @ v) (viaf_to_wikidata svc v) st w"
  unfolding work_step_def Let_def extract_truthy by simp

lemma work_key_viaf:
  "extract_viaf_id (row_get r ''title-ids'' (Text '''')) = Some v \<Longrightarrow>
   work_key r = Some (''viaf:'' @ v)"
  unfolding work_key_def Let_def extract_truthy by simp

lemma work_step_title:
  "extract_viaf_id (row_get r ''title-ids'' (Text '''')) = None \<Longrightarrow>
   work_step svc r aq st w =
     (let title = py_strip (py_str (row_get r ''title'' (Text '''')))
      in if title \<noteq> [] \<and> title \<noteq> ''nan''
         then cached_work (''title:'' @ title) (title_to_wikidata svc title aq) st w
         else (Inr (st\<lparr>work_qids := work_qids st @ [None]\<rparr>), w))"
  unfolding work_step_def Let_def extract_truthy by simp

lemma work_key_title:
  "extract_viaf_id (row_get r ''title-ids'' (Text '''')) = None \<Longrightarrow>
   work_key r =
     (let title = py_strip (py_str (row_get r ''title'' (Text '''')))
      in if title \<noteq> [] \<and> title \<noteq> ''nan'' then Some (''title:'' @ title) else None)"
  unfolding work_key_def Let_def extract_truthy by simp

lemma work_step_no_key:
  assumes "work_key r = None"
  shows "work_step svc r aq st w = (Inr (st\<lparr>work_qids := work_qids st @ [None]\<rparr>), w)"
proof (cases "extract_viaf_id (row_get r ''title-ids'' (Text ''''))")
  case None
  define title where "title = py_strip (py_str (row_get r ''title'' (Text '''')))"
  from assms have "\<not> (title \<noteq> [] \<and> title \<noteq> ''nan'')"
    unfolding work_key_title [OF None] Let_def title_def[symmetric]
    by (cases "title \<noteq> [] \<and> title \<noteq> ''nan''") simp_all
  then show ?thesis
    unfolding work_step_title [OF None] Let_def title_def[symmetric] by (simp only: if_False)
next
  case (Some v)
  with assms show ?thesis by (simp add: work_key_viaf)
qed

lemma work_step_key:
  assumes "work_key r = Some k"
  shows "\<exists>resolve. work_step svc r aq st w = cached_work k resolve st w
           \<and> (\<forall>w0 x w1. resolve w0 = (x, w1) \<longrightarrow> extends_by all_queries w0 w1)"
proof (cases "extract_viaf_id (row_get r ''title-ids'' (Text ''''))")
  case None
  define title where "title = py_strip (py_str (row_get r ''title'' (Text '''')))"
  from assms have c: "title \<noteq> [] \<and> title \<noteq> ''nan''"
    unfolding work_key_title [OF None] Let_def title_def[symmetric]
    by (cases "title \<noteq> [] \<and> title \<noteq> ''nan''") simp_all
  with assms have k: "k = ''title:'' @ title"
    unfolding work_key_title [OF None] Let_def title_def[symmetric] by simp
  have "work_step svc r aq st w = cached_work k (title_to_wikidata svc title aq) st w"
    unfolding work_step_title [OF None] Let_def title_def[symmetric] k
    using c by simp
  moreover have "\<forall>w0 x w1. title_to_wikidata svc title aq w0 = (x, w1)
      \<longrightarrow> extends_by all_queries w0 w1"
  proof (intro allI impI)
    fix w0 x w1 assume "title_to_wikidata svc title aq w0 = (x, w1)"
    then have "extends_by title_queries w0 w1" by (rule title_to_wikidata_extends)
    then show "extends_by all_queries w0 w1"
      by (rule extends_by_mono) (simp add: all_queries_def)
  qed
  ultimately show ?thesis by blast
next
  case (Some v)
  then have ok: "viaf_id_ok v" by (rule extract_viaf_id_ok)
  from Some assms have "work_step svc r aq st w = cached_work k (viaf_to_wikidata svc v) st w"
    by (simp add: work_step_viaf work_key_viaf)
  moreover have "\<forall>w0 x w1. viaf_to_wikidata svc v w0 = (x, w1) \<longrightarrow> extends_by all_queries w0 w1"
  proof (intro allI impI)
    fix w0 x w1 assume "viaf_to_wikidata svc v w0 = (x, w1)"
    then have "extends_by {viaf_query v} w0 w1" by (rule viaf_to_wikidata_extends)
    moreover from ok have "{viaf_query v} \<subseteq> all_queries" by (auto simp: all_queries_def)
    ultimately show "extends_by all_queries w0 w1" by (rule extends_by_mono)
  qed
  ultimately show ?thesis by blast
qed


lemma resolve_trace:
  assumes "extends_by Q (w @ [Progress l]) w1"
  shows "lookups w1 = lookups w @ [l]" and "lookups (w1 @ [Sleep]) = lookups w @ [l]"
    and "set (requests w1) \<subseteq> set (requests w) \<union> Q"
    and "set (requests (w1 @ [Sleep])) \<subseteq> set (requests w) \<union> Q"
proof -
  from assms show a: "lookups w1 = lookups w @ [l]"
    by (simp add: extends_by_lookups lookups_append)
  then show "lookups (w1 @ [Sleep]) = lookups w @ [l]" by (simp add: lookups_append)
  from extends_by_requests [OF assms] show b: "set (requests w1) \<subseteq> set (requests w) \<union> Q"
    by (simp add: requests_append)
  then show "set (requests (w1 @ [Sleep])) \<subseteq> set (requests w) \<union> Q"
    by (simp add: requests_append)
qed



lemma author_step_trace:
  assumes "author_step svc r st w = (res, w')"
  shows "set (requests w') \<subseteq> set (requests w) \<union> all_queries"
    and "\<exists>ls. lookups w' = lookups w @ ls
           \<and> (ls = [] \<or> (\<exists>v. ls = [Author v] \<and> author_key r = Some v \<and> author_cache st v = None))"
proof -
  have "set (requests w') \<subseteq> set (requests w) \<union> all_queries
    \<and> (\<exists>ls. lookups w' = lookups w @ ls
           \<and> (ls = [] \<or> (\<exists>v. ls = [Author v] \<and> author_key r = Some v \<and> author_cache st v = None)))"
  proof (cases "author_key r")
    case None
    with assms show ?thesis by (auto simp: author_step_no_key)
  next
    case (Some v)
    show ?thesis
    proof (cases "author_cache st v")
      case (Some q)
      with \<open>author_key r = Some v\<close> assms show ?thesis by (auto simp: author_step_hit)
    next
      case None
      note miss = author_step_miss [OF \<open>author_key r = Some v\<close> None, of svc w]
      show ?thesis
      proof (cases "r ''author-name''")
        case nm: None
        with miss assms show ?thesis by auto
      next
        case nm: (Some name)
        obtain x w1 where v: "viaf_to_wikidata svc v (w @ [Progress (Author v)]) = (x, w1)"
          by (cases "viaf_to_wikidata svc v (w @ [Progress (Author v)])")
        then have "extends_by {viaf_query v} (w @ [Progress (Author v)]) w1"
          by (rule viaf_to_wikidata_extends)
        moreover from \<open>author_key r = Some v\<close> have "{viaf_query v} \<subseteq> all_queries"
          by (auto simp: all_queries_def dest: author_key_ok)
        ultimately have e: "extends_by all_queries (w @ [Progress (Author v)]) w1"
          by (rule extends_by_mono)
        from miss nm v assms have "w' = w1 \<or> w' = w1 @ [Sleep]"
          by (auto split: sum.splits)
        with resolve_trace [OF e] \<open>author_key r = Some v\<close> None show ?thesis by auto
      qed
    qed
  qed
  then show "set (requests w') \<subseteq> set (requests w) \<union> all_queries"
    and "\<exists>ls. lookups w' = lookups w @ ls
           \<and> (ls = [] \<or> (\<exists>v. ls = [Author v] \<and> author_key r = Some v \<and> author_cache st v = None))"
    by blast+
qed

lemma author_step_state:
  assumes "author_step svc r st w = (Inr (st', aq), w')"
  shows "lookups w' = lookups w
           @ (case author_key r of None \<Rightarrow> []
              | Some v \<Rightarrow> if author_cache st v = None then [Author v] else [])"
    and "dom (author_cache st') = dom (author_cache st) \<union> set_option (author_key r)"
    and "author_cache st \<subseteq>\<^sub>m author_cache st'"
    and "work_cache st' = work_cache st"
    and "author_qids st' = author_qids st @ [cached (author_cache st') (author_key r)]"
    and "work_qids st' = work_qids st"
    and "aq = cached (author_cache st') (author_key r)"
proof -
  have "lookups w' = lookups w
           @ (case author_key r of None \<Rightarrow> []
              | Some v \<Rightarrow> if author_cache st v = None then [Author v] else [])
    \<and> dom (author_cache st') = dom (author_cache st) \<union> set_option (author_key r)
    \<and> author_cache st \<subseteq>\<^sub>m author_cache st'
    \<and> work_cache st' = work_cache st
    \<and> author_qids st' = author_qids st @ [cached (author_cache st') (author_key r)]
    \<and> work_qids st' = work_qids st
    \<and> aq = cached (author_cache st') (author_key r)"
  proof (cases "author_key r")
    case None
    with assms show ?thesis by (auto simp: author_step_no_key cached_def)
  next
    case (Some v)
    show ?thesis
    proof (cases "author_cache st v")
      case (Some q)
      with \<open>author_key r = Some v\<close> assms show ?thesis
        by (auto simp: author_step_hit cached_def)
    next
      case None
      note miss = author_step_miss [OF \<open>author_key r = Some v\<close> None, of svc w]
      obtain x w1 where v: "viaf_to_wikidata svc v (w @ [Progress (Author v)]) = (x, w1)"
        by (cases "viaf_to_wikidata svc v (w @ [Progress (Author v)])")
      then have e: "extends_by {viaf_query v} (w @ [Progress (Author v)]) w1"
        by (rule viaf_to_wikidata_extends)
      from miss v assms obtain q where q: "x = Inr q" "w' = w1 @ [Sleep]"
        "st' = st\<lparr>author_cache := (author_cache st)(v \<mapsto> q),
                   author_qids := author_qids st @ [q]\<rparr>" "aq = q"
        by (auto split: option.splits sum.splits)
      from q resolve_trace(2) [OF e] \<open>author_key r = Some v\<close> None show ?thesis
        by (auto simp: cached_def map_le_def)
    qed
  qed
  then show "lookups w' = lookups w
           @ (case author_key r of None \<Rightarrow> []
              | Some v \<Rightarrow> if author_cache st v = None then [Author v] else [])"
    and "dom (author_cache st') = dom (author_cache st) \<union> set_option (author_key r)"
    and "author_cache st \<subseteq>\<^sub>m author_cache st'"
    and "work_cache st' = work_cache st"
    and "author_qids st' = author_qids st @ [cached (author_cache st') (author_key r)]"
    and "work_qids st' = work_qids st"
    and "aq = cached (author_cache st') (author_key r)"
    by blast+
qed


lemma work_step_trace:
  assumes "work_step svc r aq st w = (res, w')"
  shows "set (requests w') \<subseteq> set (requests w) \<union> all_queries"
    and "\<exists>ls. lookups w' = lookups w @ ls
           \<and> (ls = [] \<or> (\<exists>k. ls = [Work k] \<and> work_key r = Some k \<and> work_cache st k = None))"
proof -
  have "set (requests w') \<subseteq> set (requests w) \<union> all_queries
    \<and> (\<exists>ls. lookups w' = lookups w @ ls
           \<and> (ls = [] \<or> (\<exists>k. ls = [Work k] \<and> work_key r = Some k \<and> work_cache st k = None)))"
  proof (cases "work_key r")
    case None
    with assms show ?thesis by (auto simp: work_step_no_key)
  next
    case (Some k)
    from work_step_key [OF Some, of svc aq st w] obtain resolve
      where ws: "work_step svc r aq st w = cached_work k resolve st w"
        and ext: "\<And>w0 x w1. resolve w0 = (x, w1) \<Longrightarrow> extends_by all_queries w0 w1"
      by blast
    show ?thesis
    proof (cases "work_cache st k")
      case (Some q)
      with ws assms show ?thesis by (auto simp: cached_work_hit)
    next
      case None
      obtain x w1 where v: "resolve (w @ [Progress (Work k)]) = (x, w1)"
        by (cases "resolve (w @ [Progress (Work k)])")
      then have e: "extends_by all_queries (w @ [Progress (Work k)]) w1" by (rule ext)
      from ws assms v have "w' = w1 \<or> w' = w1 @ [Sleep]"
        by (auto simp: cached_work_miss [OF None] split: sum.splits)
      with resolve_trace [OF e] \<open>work_key r = Some k\<close> None show ?thesis by auto
    qed
  qed
  then show "set (requests w') \<subseteq> set (requests w) \<union> all_queries"
    and "\<exists>ls. lookups w' = lookups w @ ls
           \<and> (ls = [] \<or> (\<exists>k. ls = [Work k] \<and> work_key r = Some k \<and> work_cache st k = None))"
    by blast+
qed

lemma work_step_state:
  assumes "work_step svc r aq st w = (Inr st', w')"
  shows "lookups w' = lookups w
           @ (case work_key r of None \<Rightarrow> []
              | Some k \<Rightarrow> if work_cache st k = None then [Work k] else [])"
    and "dom (work_cache st') = dom (work_cache st) \<union> set_option (work_key r)"
    and "work_cache st \<subseteq>\<^sub>m work_cache st'"
    and "author_cache st' = author_cache st"
    and "work_qids st' = work_qids st @ [cached (work_cache st') (work_key r)]"
    and "author_qids st' = author_qids st"
proof -
  have "lookups w' = lookups w
           @ (case work_key r of None \<Rightarrow> []
              | Some k \<Rightarrow> if work_cache st k = None then [Work k] else [])
    \<and> dom (work_cache st') = dom (work_cache st) \<union> set_option (work_key r)
    \<and> work_cache st \<subseteq>\<^sub>m work_cache st'
    \<and> author_cache st' = author_cache st
    \<and> work_qids st' = work_qids st @ [cached (work_cache st') (work_key r)]
    \<and> author_qids st' = author_qids st"
  proof (cases "work_key r")
    case None
    with assms show ?thesis by (auto simp: work_step_no_key cached_def)
  next
    case (Some k)
    from work_step_key [OF Some, of svc aq st w] obtain resolve
      where ws: "work_step svc r aq st w = cached_work k resolve st w"
        and ext: "\<And>w0 x w1. resolve w0 = (x, w1) \<Longrightarrow> extends_by all_queries w0 w1"
      by blast
    show ?thesis
    proof (cases "work_cache st k")
      case (Some q)
      with \<open>work_key r = Some k\<close> ws assms show ?thesis
        by (auto simp: cached_work_hit cached_def)
    next
      case None
      obtain x w1 where v: "resolve (w @ [Progress (Work k)]) = (x, w1)"
        by (cases "resolve (w @ [Progress (Work k)])")
      then have e: "extends_by all_queries (w @ [Progress (Work k)]) w1" by (rule ext)
      from ws assms v obtain q where q: "x = Inr q" "w' = w1 @ [Sleep]"
        "st' = st\<lparr>work_cache := (work_cache st)(k \<mapsto> q), work_qids := work_qids st @ [q]\<rparr>"
        by (auto simp: cached_work_miss [OF None] split: sum.splits)
      from q resolve_trace(2) [OF e] \<open>work_key r = Some k\<close> None show ?thesis
        by (auto simp: cached_def map_le_def)
    qed
  qed
  then show "lookups w' = lookups w
           @ (case work_key r of None \<Rightarrow> []
              | Some k \<Rightarrow> if work_cache st k = None then [Work k] else [])"
    and "dom (work_cache st') = dom (work_cache st) \<union> set_option (work_key r)"
    and "work_cache st \<subseteq>\<^sub>m work_cache st'"
    and "author_cache st' = author_cache st"
    and "work_qids st' = work_qids st @ [cached (work_cache st') (work_key r)]"
    and "author_qids st' = author_qids st"
    by blast+
qed


section \<open>Rows and the whole loop\<close>

text \<open>One row: the trace on every outcome, the state when the row completes.\<close>

lemma row_lookups_trace:
  assumes "row_lookups svc r st w = (res, w')" and "cache_inv st w"
  shows "set (requests w') \<subseteq> set (requests w) \<union> all_queries"
    and "distinct (lookups w')"
    and "set (lookups w') \<subseteq> set (lookups w) \<union> set (row_keys r)"
proof -
  obtain x w1 where a: "author_step svc r st w = (x, w1)" by (cases "author_step svc r st w")
  note at = author_step_trace [OF a]
  from at(2) obtain ls where ls: "lookups w1 = lookups w @ ls"
    "ls = [] \<or> (\<exists>v. ls = [Author v] \<and> author_key r = Some v \<and> author_cache st v = None)"
    by blast
  from assms(2) have inv: "distinct (lookups w)"
    "set (lookups w) = Author ` dom (author_cache st) \<union> Work ` dom (work_cache st)"
    by (simp_all add: cache_inv_def)
  from ls inv have d1: "distinct (lookups w1)" by (auto simp: domIff)
  from ls have s1: "set (lookups w1) \<subseteq> set (lookups w) \<union> set (row_keys r)"
    by (auto simp: row_keys_def)
  have "set (requests w') \<subseteq> set (requests w) \<union> all_queries
      \<and> distinct (lookups w') \<and> set (lookups w') \<subseteq> set (lookups w) \<union> set (row_keys r)"
  proof (cases x)
    case (Inl e)
    with a assms(1) have "w' = w1" by (simp add: row_lookups_def)
    with at(1) d1 s1 show ?thesis by simp
  next
    case (Inr p)
    obtain st1 aq where p: "p = (st1, aq)" by (cases p)
    with Inr a assms(1) have w: "work_step svc r aq st1 w1 = (res, w')"
      by (simp add: row_lookups_def)
    note wt = work_step_trace [OF w]
    from wt(2) obtain ks where ks: "lookups w' = lookups w1 @ ks"
      "ks = [] \<or> (\<exists>k. ks = [Work k] \<and> work_key r = Some k \<and> work_cache st1 k = None)"
      by blast
    from a Inr p have "work_cache st1 = work_cache st" by (simp add: author_step_state(4))
    with ks ls inv d1 have "distinct (lookups w')" by (auto simp: domIff)
    moreover from ks s1 have "set (lookups w') \<subseteq> set (lookups w) \<union> set (row_keys r)"
      by (auto simp: row_keys_def)
    moreover from at(1) wt(1) have "set (requests w') \<subseteq> set (requests w) \<union> all_queries"
      by blast
    ultimately show ?thesis by simp
  qed
  then show "set (requests w') \<subseteq> set (requests w) \<union> all_queries"
    and "distinct (lookups w')"
    and "set (lookups w') \<subseteq> set (lookups w) \<union> set (row_keys r)"
    by blast+
qed

lemma row_lookups_state:
  assumes "row_lookups svc r st w = (Inr st', w')" and "cache_inv st w"
  shows "cache_inv st' w'"
    and "set (lookups w') = set (lookups w) \<union> set (row_keys r)"
    and "author_cache st \<subseteq>\<^sub>m author_cache st'"
    and "work_cache st \<subseteq>\<^sub>m work_cache st'"
    and "set_option (author_key r) \<subseteq> dom (author_cache st')"
    and "set_option (work_key r) \<subseteq> dom (work_cache st')"
    and "author_qids st' = author_qids st @ [cached (author_cache st') (author_key r)]"
    and "work_qids st' = work_qids st @ [cached (work_cache st') (work_key r)]"
proof -
  obtain x w1 where a: "author_step svc r st w = (x, w1)" by (cases "author_step svc r st w")
  with assms(1) obtain st1 aq where x: "x = Inr (st1, aq)"
    by (cases x) (auto simp: row_lookups_def)
  with a assms(1) have w: "work_step svc r aq st1 w1 = (Inr st', w')"
    by (simp add: row_lookups_def)
  note as = author_step_state [OF a [unfolded x]]
  note ws = work_step_state [OF w]
  from assms(2) have inv: "distinct (lookups w)"
    "set (lookups w) = Author ` dom (author_cache st) \<union> Work ` dom (work_cache st)"
    by (simp_all add: cache_inv_def)
  have l1: "set (lookups w1) = set (lookups w) \<union> Author ` set_option (author_key r)"
    using as(1) inv(2) by (auto split: option.splits if_splits)
  have l2: "set (lookups w') = set (lookups w1) \<union> Work ` set_option (work_key r)"
    using ws(1) l1 inv(2) as(4) by (auto split: option.splits if_splits)
  from l1 l2 show keys: "set (lookups w') = set (lookups w) \<union> set (row_keys r)"
    by (auto simp: row_keys_def split: option.splits)
  from row_lookups_trace(2) [OF assms] have "distinct (lookups w')" .
  moreover have "set (lookups w') = Author ` dom (author_cache st') \<union> Work ` dom (work_cache st')"
    using l1 l2 inv(2) as(2,4) ws(2,4) by auto
  ultimately show "cache_inv st' w'" by (simp add: cache_inv_def)
  from as(3) ws(4) show "author_cache st \<subseteq>\<^sub>m author_cache st'" by simp
  from ws(3) as(4) show "work_cache st \<subseteq>\<^sub>m work_cache st'" by simp
  from as(2) ws(4) show "set_option (author_key r) \<subseteq> dom (author_cache st')" by simp
  from ws(2) show "set_option (work_key r) \<subseteq> dom (work_cache st')" by simp
  from as(5) ws(4,6) show "author_qids st' = author_qids st @ [cached (author_cache st') (author_key r)]"
    by simp
  from ws(5) as(6) show "work_qids st' = work_qids st @ [cached (work_cache st') (work_key r)]"
    by simp
qed


text \<open>The same with the row label: a label that is text ends the run before the row
  sends anything.\<close>

lemma process_row_trace:
  assumes "process_row svc ir st w = (res, w')" and "cache_inv st w"
  shows "set (requests w') \<subseteq> set (requests w) \<union> all_queries"
    and "distinct (lookups w')"
    and "set (lookups w') \<subseteq> set (lookups w) \<union> set (row_keys (snd ir))"
proof -
  have "set (requests w') \<subseteq> set (requests w) \<union> all_queries
      \<and> distinct (lookups w')
      \<and> set (lookups w') \<subseteq> set (lookups w) \<union> set (row_keys (snd ir))"
  proof (cases "row_num_error (fst ir)")
    case (Some e)
    with assms(1) have "w' = w" by (simp add: process_row_def)
    with assms(2) show ?thesis by (auto simp: cache_inv_def)
  next
    case None
    with assms(1) have "row_lookups svc (snd ir) st w = (res, w')" by (simp add: process_row_def)
    from row_lookups_trace [OF this assms(2)] show ?thesis by simp
  qed
  then show "set (requests w') \<subseteq> set (requests w) \<union> all_queries"
    and "distinct (lookups w')"
    and "set (lookups w') \<subseteq> set (lookups w) \<union> set (row_keys (snd ir))"
    by blast+
qed

lemma process_row_Inr:
  "process_row svc ir st w = (Inr st', w') \<Longrightarrow> row_lookups svc (snd ir) st w = (Inr st', w')"
  by (cases "row_num_error (fst ir)") (simp_all add: process_row_def)

lemmas process_row_state = row_lookups_state [OF process_row_Inr]

lemma cached_mono: "c \<subseteq>\<^sub>m c' \<Longrightarrow> set_option key \<subseteq> dom c \<Longrightarrow> cached c' key = cached c key"
  by (cases key) (auto simp: cached_def map_le_def dom_def split: option.splits)

lemma table_keys_Cons: "table_keys (r # rs) = set (row_keys r) \<union> table_keys rs"
  by (simp add: table_keys_def)

lemma main_loop_trace:
  assumes "main_loop svc irs st w = (res, w')" and "cache_inv st w"
  shows "set (requests w') \<subseteq> set (requests w) \<union> all_queries
    \<and> distinct (lookups w') \<and> set (lookups w') \<subseteq> set (lookups w) \<union> table_keys (map snd irs)"
  using assms
proof (induction irs arbitrary: st w)
  case Nil
  then show ?case by (simp add: cache_inv_def)
next
  case (Cons ir irs)
  obtain x w1 where p: "process_row svc ir st w = (x, w1)" by (cases "process_row svc ir st w")
  note pt = process_row_trace [OF p Cons.prems(2)]
  show ?case
  proof (cases x)
    case (Inl e)
    with p Cons.prems(1) have "w' = w1" by simp
    with pt show ?thesis by (auto simp: table_keys_Cons)
  next
    case (Inr st1)
    with p Cons.prems(1) have m: "main_loop svc irs st1 w1 = (res, w')" by simp
    from p Inr Cons.prems(2) have "cache_inv st1 w1" by (simp add: process_row_state(1))
    from Cons.IH [OF m this] pt show ?thesis by (auto simp: table_keys_Cons)
  qed
qed

lemma main_loop_state:
  assumes "main_loop svc irs st w = (Inr st', w')" and "cache_inv st w"
  shows "cache_inv st' w' \<and> set (lookups w') = set (lookups w) \<union> table_keys (map snd irs)
    \<and> author_cache st \<subseteq>\<^sub>m author_cache st' \<and> work_cache st \<subseteq>\<^sub>m work_cache st'
    \<and> author_qids st'
        = author_qids st @ map (\<lambda>ir. cached (author_cache st') (author_key (snd ir))) irs
    \<and> work_qids st'
        = work_qids st @ map (\<lambda>ir. cached (work_cache st') (work_key (snd ir))) irs"
  using assms
proof (induction irs arbitrary: st w)
  case Nil
  then show ?case by (simp add: table_keys_def)
next
  case (Cons ir irs)
  obtain x w1 where p: "process_row svc ir st w = (x, w1)" by (cases "process_row svc ir st w")
  with Cons.prems(1) obtain st1 where x: "x = Inr st1" by (cases x) auto
  with p Cons.prems(1) have m: "main_loop svc irs st1 w1 = (Inr st', w')" by simp
  note ps = process_row_state [OF p [unfolded x] Cons.prems(2)]
  note ih = Cons.IH [OF m ps(1)]
  have a: "cached (author_cache st') (author_key (snd ir))
      = cached (author_cache st1) (author_key (snd ir))"
    using ih ps(5) by (intro cached_mono) simp_all
  have b: "cached (work_cache st') (work_key (snd ir))
      = cached (work_cache st1) (work_key (snd ir))"
    using ih ps(6) by (intro cached_mono) simp_all
  from ih ps(2) have "set (lookups w') = set (lookups w) \<union> table_keys (map snd (ir # irs))"
    by (auto simp: table_keys_Cons)
  moreover from ih ps(3) have "author_cache st \<subseteq>\<^sub>m author_cache st'"
    by (blast intro: map_le_trans)
  moreover from ih ps(4) have "work_cache st \<subseteq>\<^sub>m work_cache st'"
    by (blast intro: map_le_trans)
  moreover from ih ps(7) a
  have "author_qids st'
      = author_qids st @ map (\<lambda>ir. cached (author_cache st') (author_key (snd ir))) (ir # irs)"
    by simp
  moreover from ih ps(8) b
  have "work_qids st'
      = work_qids st @ map (\<lambda>ir. cached (work_cache st') (work_key (snd ir))) (ir # irs)"
    by simp
  ultimately show ?case using ih by blast
qed

lemma cache_inv_init: "cache_inv init_state []"
  by (simp add: cache_inv_def init_state_def)

section \<open>The whole run\<close>

lemma in_requests: "q \<in> set (requests w) \<longleftrightarrow> Request q \<in> set w"
  by (induction w rule: requests.induct) auto

lemma viaf_query_inj: "viaf_query v = viaf_query v' \<Longrightarrow> v = v'"
  by (simp add: viaf_query_def)

lemma viaf_query_not_title: "viaf_query v \<notin> title_queries"
  by (auto simp: title_queries_def viaf_query_def author_query_def label_query_def
      full_title_query_def)

lemma viaf_query_in_all: "viaf_query v \<in> all_queries \<Longrightarrow> viaf_id_ok v"
  using viaf_query_not_title viaf_query_inj by (auto simp: all_queries_def)

lemma digit_not_quote: "is_digit c \<Longrightarrow> c \<noteq> CHR 0x22"
  by (auto simp: is_digit_def)

lemma main_trace:
  "main svc df = (res, w) \<Longrightarrow>
   \<exists>res0. main_loop svc (zip (index df) (rows df)) init_state [] = (res0, w)"
  by (auto simp: main_def split: prod.splits sum.splits)

lemma main_loop_lengths:
  assumes "main_loop svc irs init_state [] = (Inr st, w)"
  shows "length (author_qids st) = length irs" and "length (work_qids st) = length irs"
  using main_loop_state [OF assms cache_inv_init] by (simp_all add: init_state_def)

lemma rows_of_zip: "length rs \<le> length ls \<Longrightarrow> map snd (zip ls rs) = rs"
  by (simp add: map_snd_zip_take)

lemma table_keys_zip: "table_keys (map snd (zip ls rs)) \<subseteq> table_keys rs"
  by (auto simp: table_keys_def dest: set_zip_rightD)

lemma zip_update_rows:
  "length xs = length rs \<Longrightarrow> length ys = length rs \<Longrightarrow>
   map (\<lambda>(r, v). r(k \<mapsto> v)) (zip (map (\<lambda>(r, v). r(a \<mapsto> v)) (zip rs (map f xs))) (map f ys))
     = map (\<lambda>(r, x, y). r(a \<mapsto> f x, k \<mapsto> f y)) (zip rs (zip xs ys))"
proof (induction rs arbitrary: xs ys)
  case Nil
  then show ?case by simp
next
  case (Cons r rs)
  then obtain x xs' y ys' where "xs = x # xs'" "ys = y # ys'"
    by (cases xs; cases ys) auto
  with Cons show ?case by simp
qed

lemma main_Inr:
  "main svc df = (Inr out, w) \<longleftrightarrow>
   (\<exists>st. main_loop svc (zip (index df) (rows df)) init_state [] = (Inr st, w)
      \<and> length (rows df) \<le> length (index df) \<and> out = with_results df st)"
proof -
  obtain x w0 where m: "main_loop svc (zip (index df) (rows df)) init_state [] = (x, w0)"
    by (cases "main_loop svc (zip (index df) (rows df)) init_state []")
  show ?thesis
  proof (cases x)
    case (Inl e)
    with m show ?thesis by (simp add: main_def)
  next
    case (Inr st)
    note len = main_loop_lengths [OF m [unfolded Inr]]
    show ?thesis
    proof (cases "length (rows df) \<le> length (index df)")
      case True
      with len have "length (author_qids st) = length (rows df)"
        "length (work_qids st) = length (rows df)" by simp_all
      with m Inr have "main svc df = (Inr (with_results df st), w0)"
        by (simp add: main_def set_column_def with_results_def Let_def zip_update_rows)
      with m Inr True show ?thesis by auto
    next
      case False
      with len have "length (author_qids st) \<noteq> length (rows df)" by simp
      with m Inr have "\<exists>e. main svc df = (Inl e, w0)"
        by (simp add: main_def set_column_def)
      with m Inr False show ?thesis by auto
    qed
  qed
qed

lemma with_results_rows:
  assumes "length (author_qids st) = length (rows df)" "length (work_qids st) = length (rows df)"
    and "i < length (rows df)"
  shows "rows (with_results df st) ! i
    = (rows df ! i)(''author_wikidata_id'' \<mapsto> qid_cell (author_qids st ! i),
                    ''work_wikidata_id'' \<mapsto> qid_cell (work_qids st ! i))"
  using assms by (simp add: with_results_def)


section \<open>A well-formed service lets the run complete\<close>









section \<open>A run on the example table\<close>

lemmas demo_eval = title_to_wikidata_def ask_def sparql_query_def sparql_request_def
  requests_made_def demo_service_def first_qid_def entity_def rsplit_last_def
  normalize_title_def strip_chars_def strip_with_def sep_match_at_def is_sep_def is_space_def
  escape_quotes_def viaf_query_def author_query_def label_query_def full_title_query_def
  LABEL_LANG_def

lemmas main_eval = main_def init_state_def process_row_def row_lookups_def row_num_error_def
  author_step_def work_step_def
  cached_work_def viaf_to_wikidata_def row_get_def py_strip_def viaf_match_at_def viaf_prefix_def
  is_digit_def set_column_def demo_table_def rerun_table_def demo_row_def demo_columns_def
  warning_text_def Let_def

lemma demo_run:
  "main_loop demo_service (zip (index demo_table) (rows demo_table)) init_state [] =
     (Inr demo_final,
      [Progress (Author ''12345''), Request (viaf_query ''12345''), Sleep,
       Progress (Work ''title:Lalka: tom 1''), Request (author_query ''Lalka'' ''Q1''),
       Request (label_query ''Lalka''), Request (full_title_query ''Lalka: tom 1''),
       Warning ''  Warning: SPARQL error for Lalka: tom 1: 500 Server Error'', Sleep,
       Progress (Work ''viaf:777''), Request (viaf_query ''777''), Sleep])"
  by (simp add: main_eval demo_eval demo_final_def)

lemma demo_trace:
  "snd (main demo_service demo_table) =
      [Progress (Author ''12345''), Request (viaf_query ''12345''), Sleep,
       Progress (Work ''title:Lalka: tom 1''), Request (author_query ''Lalka'' ''Q1''),
       Request (label_query ''Lalka''), Request (full_title_query ''Lalka: tom 1''),
       Warning ''  Warning: SPARQL error for Lalka: tom 1: 500 Server Error'', Sleep,
       Progress (Work ''viaf:777''), Request (viaf_query ''777''), Sleep]"
proof -
  from demo_run main_trace [of demo_service demo_table "fst (main demo_service demo_table)"
      "snd (main demo_service demo_table)"]
  show ?thesis by simp
qed

lemma demo_written: "fst (main demo_service demo_table) = Inr (with_results demo_table demo_final)"
proof -
  from demo_run demo_trace
  have "main_loop demo_service (zip (index demo_table) (rows demo_table)) init_state []
      = (Inr demo_final, snd (main demo_service demo_table))" by simp
  moreover have "length (rows demo_table) \<le> length (index demo_table)"
    by (simp add: demo_table_def)
  ultimately have "main demo_service demo_table
      = (Inr (with_results demo_table demo_final), snd (main demo_service demo_table))"
    using main_Inr [of demo_service demo_table] by blast
  then show ?thesis by (metis fst_conv)
qed

lemma demo_pair:
  "main demo_service demo_table
     = (fst (main demo_service demo_table), snd (main demo_service demo_table))"
  by simp

section \<open>The chain on the example service\<close>




section \<open>A failed request does not end the run\<close>





section \<open>Resolutions in the trace\<close>


lemma sends_refl: "sends w w []"
  by (simp add: sends_def)

lemma sends_trans: "sends w w1 a \<Longrightarrow> sends w1 w2 b \<Longrightarrow> sends w w2 (a @ b)"
  unfolding sends_def by (auto simp: lookups_append requests_append)

lemma ask_sends: "ask svc q l w = (r, w') \<Longrightarrow> sends w w' [q]"
  unfolding ask_def sparql_query_def sparql_request_def sends_def
  by (auto split: reply.splits)

lemma viaf_to_wikidata_sends: "viaf_to_wikidata svc v w = (r, w') \<Longrightarrow> sends w w' [viaf_query v]"
  unfolding viaf_to_wikidata_def by (rule ask_sends)

lemma or_else_cases:
  assumes "or_else (r0, w0) nxt = (r, w')"
  shows "(r = r0 \<and> w' = w0 \<and> r0 \<noteq> Inr None) \<or> (\<exists>x. r0 = Inr x \<and> nxt x w0 = (r, w'))"
proof (cases r0)
  case (Inl e)
  with assms show ?thesis by (auto simp: or_else_def)
next
  case (Inr x)
  with assms show ?thesis by (cases x) (auto simp: or_else_def split: if_splits)
qed

lemma title_to_wikidata_sends:
  assumes "title_to_wikidata svc t aq w = (r, w')"
  shows "\<exists>qs a. sends w w' qs \<and> qs \<noteq> []
     \<and> (prefix qs [author_query (escape_quotes (normalize_title t)) a,
                    label_query (escape_quotes (normalize_title t)),
                    full_title_query (escape_quotes t)]
        \<or> prefix qs [label_query (escape_quotes (normalize_title t)),
                      full_title_query (escape_quotes t)])"
proof -
  define e where "e = escape_quotes (normalize_title t)"
  define lq where "lq = label_query e"
  define fq where "fq = full_title_query (escape_quotes t)"
  define S1 where "S1 = (if truthy aq
        then author_constrained_step svc (normalize_title t) (the aq) w else (Inr None, w))"
  define nxt where "nxt = (\<lambda>(_ :: string option) w1.
          or_else (type_scoped_step svc (normalize_title t) w1)
            (\<lambda>r3 w2.
               if normalize_title t \<noteq> t then type_scoped_retry svc t w2
               else (Inr r3, w2)))"
  obtain r0 w0 where s1: "S1 = (r0, w0)" by (cases S1)
  from assms have ts: "or_else (r0, w0) nxt = (r, w')"
    by (simp add: title_to_wikidata_or_else title_steps_def S1_def[symmetric] nxt_def[symmetric] s1)
  have tail: "sends w0 w' [lq] \<or> sends w0 w' [lq, fq]" if n: "nxt x w0 = (r, w')" for x
  proof -
    obtain r2 w2 where s2: "type_scoped_step svc (normalize_title t) w0 = (r2, w2)"
      by (cases "type_scoped_step svc (normalize_title t) w0")
    then have a2: "sends w0 w2 [lq]"
      unfolding type_scoped_step_def lq_def e_def by (rule ask_sends)
    from n s2 have "or_else (r2, w2) (\<lambda>r3 w2.
               if normalize_title t \<noteq> t then type_scoped_retry svc t w2
               else (Inr r3, w2)) = (r, w')" by (simp add: nxt_def)
    from or_else_cases [OF this] show ?thesis
    proof
      assume "r = r2 \<and> w' = w2 \<and> r2 \<noteq> Inr None"
      with a2 show ?thesis by simp
    next
      assume "\<exists>x. r2 = Inr x \<and> (if normalize_title t \<noteq> t then type_scoped_retry svc t w2
               else (Inr x, w2)) = (r, w')"
      then obtain y where y: "(if normalize_title t \<noteq> t then type_scoped_retry svc t w2
               else (Inr y, w2)) = (r, w')" by blast
      show ?thesis
      proof (cases "normalize_title t \<noteq> t")
        case True
        with y have "type_scoped_retry svc t w2 = (r, w')" by simp
        then have "sends w2 w' [fq]"
          unfolding type_scoped_retry_def fq_def by (rule ask_sends)
        with a2 have "sends w0 w' ([lq] @ [fq])" by (rule sends_trans)
        then show ?thesis by simp
      next
        case False
        with y a2 show ?thesis by simp
      qed
    qed
  qed
  show ?thesis
  proof (cases "truthy aq")
    case False
    with s1 have 0: "r0 = Inr None" "w0 = w" by (simp_all add: S1_def)
    with or_else_cases [OF ts] obtain x where "nxt x w = (r, w')" by blast
    with tail 0 have "sends w w' [lq] \<or> sends w w' [lq, fq]" by blast
    then show ?thesis unfolding lq_def fq_def e_def
      by (metis list.distinct(1) prefix_order.order_refl prefix_snoc append_Cons append_Nil)
  next
    case True
    then obtain a where a: "aq = Some a" by (cases aq) simp_all
    define q2 where "q2 = author_query e a"
    from True a s1 have "ask svc q2 e w = (r0, w0)"
      by (simp add: S1_def author_constrained_step_def q2_def e_def)
    then have a1: "sends w w0 [q2]" by (rule ask_sends)
    from or_else_cases [OF ts]
    have "sends w w' [q2] \<or> sends w w' [q2, lq] \<or> sends w w' [q2, lq, fq]"
    proof
      assume "r = r0 \<and> w' = w0 \<and> r0 \<noteq> Inr None"
      with a1 show ?thesis by simp
    next
      assume "\<exists>x. r0 = Inr x \<and> nxt x w0 = (r, w')"
      then obtain x where "nxt x w0 = (r, w')" by blast
      from tail [OF this] sends_trans [OF a1] show ?thesis by fastforce
    qed
    then have "\<exists>qs. sends w w' qs \<and> qs \<noteq> [] \<and> prefix qs [q2, lq, fq]"
      by (auto simp: prefix_def)
    then show ?thesis unfolding q2_def lq_def fq_def e_def by blast
  qed
qed

section \<open>Precedence of the identifier path\<close>

lemma cached_work_extends:
  assumes "\<And>w0 x w1. resolve w0 = (x, w1) \<Longrightarrow> extends_by Q w0 w1"
    and "cached_work k resolve st w = (res, w')"
  shows "\<exists>evs. w' = w @ evs \<and> set (requests evs) \<subseteq> Q"
proof (cases "work_cache st k")
  case (Some q)
  with assms(2) show ?thesis by (simp add: cached_work_hit)
next
  case None
  obtain x w1 where r: "resolve (w @ [Progress (Work k)]) = (x, w1)"
    by (cases "resolve (w @ [Progress (Work k)])")
  from assms(1) [OF r] obtain evs where e: "w1 = (w @ [Progress (Work k)]) @ evs"
    "set (requests evs) \<subseteq> Q" unfolding extends_by_def by blast
  from assms(2) r have "w' = w1 \<or> w' = w1 @ [Sleep]"
    by (auto simp: cached_work_miss [OF None] split: sum.splits)
  then show ?thesis
  proof
    assume "w' = w1"
    with e have "w' = w @ (Progress (Work k) # evs)"
      "set (requests (Progress (Work k) # evs)) \<subseteq> Q" by simp_all
    then show ?thesis by blast
  next
    assume "w' = w1 @ [Sleep]"
    with e have "w' = w @ (Progress (Work k) # evs @ [Sleep])"
      "set (requests (Progress (Work k) # evs @ [Sleep])) \<subseteq> Q"
      by (simp_all add: requests_append)
    then show ?thesis by blast
  qed
qed

text \<open>
  Claim C2. A row whose work reference yields an identifier \<open>v\<close> is resolved by the
  identifier path alone: the second half of the loop body is the cached identifier lookup
  under the key \<open>viaf:v\<close>; every request it sends is the identifier query for \<open>v\<close>, which
  is none of the title queries; and on a new key the row gets whatever the identifier
  lookup returns, also when that is nothing.
\<close>

theorem viaf_takes_precedence:
  assumes "extract_viaf_id (row_get r ''title-ids'' (Text '''')) = Some v"
  shows "work_step svc r aq st w = cached_work (''viaf:'' @ v) (viaf_to_wikidata svc v) st w
    \<and> (\<forall>res w'. work_step svc r aq st w = (res, w')
          \<longrightarrow> (\<exists>evs. w' = w @ evs \<and> set (requests evs) \<subseteq> {viaf_query v}))
    \<and> viaf_query v \<notin> title_queries
    \<and> (\<forall>q w1. work_cache st (''viaf:'' @ v) = None
          \<and> viaf_to_wikidata svc v (w @ [Progress (Work (''viaf:'' @ v))]) = (Inr q, w1)
          \<longrightarrow> work_step svc r aq st w
                = (Inr (st\<lparr>work_cache := (work_cache st)(''viaf:'' @ v \<mapsto> q),
                          work_qids := work_qids st @ [q]\<rparr>), w1 @ [Sleep]))"
proof -
  note ws = work_step_viaf [OF assms, of svc aq st w]
  have "\<forall>res w'. work_step svc r aq st w = (res, w')
          \<longrightarrow> (\<exists>evs. w' = w @ evs \<and> set (requests evs) \<subseteq> {viaf_query v})"
    unfolding ws using cached_work_extends [of "viaf_to_wikidata svc v" "{viaf_query v}"]
      viaf_to_wikidata_extends by blast
  moreover have "\<forall>q w1. work_cache st (''viaf:'' @ v) = None
          \<and> viaf_to_wikidata svc v (w @ [Progress (Work (''viaf:'' @ v))]) = (Inr q, w1)
          \<longrightarrow> work_step svc r aq st w
                = (Inr (st\<lparr>work_cache := (work_cache st)(''viaf:'' @ v \<mapsto> q),
                          work_qids := work_qids st @ [q]\<rparr>), w1 @ [Sleep])"
    unfolding ws by (auto simp: cached_work_miss)
  ultimately show ?thesis using ws viaf_query_not_title by blast
qed

theorem viaf_takes_precedence_witness:
  "work_step demo_service
     (demo_row ''Prus'' (Text ''https://viaf.org/viaf/12345/'') (Text ''Faraon'')
        (Text ''https://viaf.org/viaf/777/''))
     (Some ''Q1'') init_state []
   = (Inr (init_state\<lparr>work_cache := (work_cache init_state)(''viaf:777'' \<mapsto> None),
                      work_qids := work_qids init_state @ [None]\<rparr>),
      [Progress (Work ''viaf:777''), Request (viaf_query ''777''), Sleep])"
proof -
  let ?r = "demo_row ''Prus'' (Text ''https://viaf.org/viaf/12345/'') (Text ''Faraon'')
        (Text ''https://viaf.org/viaf/777/'')"
  have 1: "extract_viaf_id (row_get ?r ''title-ids'' (Text '''')) = Some ''777''"
    by (simp add: main_eval is_space_def strip_with_def)
  have 2: "work_cache init_state (''viaf:'' @ ''777'') = None
      \<and> viaf_to_wikidata demo_service ''777'' ([] @ [Progress (Work (''viaf:'' @ ''777''))])
          = (Inr None, [Progress (Work ''viaf:777''), Request (viaf_query ''777'')])"
    by (simp add: init_state_def viaf_to_wikidata_def demo_eval)
  from viaf_takes_precedence [OF 1, of demo_service "Some ''Q1''" init_state "[]"]
  have "work_cache init_state (''viaf:'' @ ''777'') = None
      \<and> viaf_to_wikidata demo_service ''777'' ([] @ [Progress (Work (''viaf:'' @ ''777''))])
          = (Inr None, [Progress (Work ''viaf:777''), Request (viaf_query ''777'')])
    \<longrightarrow> work_step demo_service ?r (Some ''Q1'') init_state []
          = (Inr (init_state\<lparr>work_cache := (work_cache init_state)(''viaf:'' @ ''777'' \<mapsto> None),
                      work_qids := work_qids init_state @ [None]\<rparr>),
             [Progress (Work ''viaf:777''), Request (viaf_query ''777'')] @ [Sleep])"
    by blast
  with 2 show ?thesis by simp
qed


section \<open>What a run sends and what it writes\<close>

text \<open>
  Claim C10. Every identifier that a run puts into the identifier query is a non-empty
  string of digits; no double quote gets into the query with it.
\<close>

theorem viaf_values_are_digits:
  assumes "main svc df = (res, w)" and "Request (viaf_query v) \<in> set w"
  shows "v \<noteq> [] \<and> (\<forall>c \<in> set v. is_digit c) \<and> CHR 0x22 \<notin> set v"
proof -
  from main_trace [OF assms(1)] obtain res0
    where m: "main_loop svc (zip (index df) (rows df)) init_state [] = (res0, w)" by blast
  from main_loop_trace [OF m cache_inv_init] have "set (requests w) \<subseteq> all_queries" by simp
  with assms(2) have "viaf_query v \<in> all_queries" by (auto simp: in_requests)
  then have "viaf_id_ok v" by (rule viaf_query_in_all)
  then show ?thesis using digit_not_quote by (auto simp: viaf_id_ok_def list_all_iff)
qed

theorem viaf_values_are_digits_witness:
  "Request (viaf_query ''777'') \<in> set (snd (main demo_service demo_table))
   \<and> ''777'' \<noteq> [] \<and> list_all is_digit ''777'' \<and> CHR 0x22 \<notin> set ''777''"
proof -
  have "Request (viaf_query ''777'') \<in> set (snd (main demo_service demo_table))"
    by (simp add: demo_trace)
  with viaf_values_are_digits [OF demo_pair, of "''777''"] show ?thesis
    by (simp add: list_all_iff)
qed

text \<open>The title chain never pauses, whatever the service answers.\<close>

lemma title_to_wikidata_never_sleeps:
  assumes "title_to_wikidata svc title aq w = (r, w')"
  shows "\<exists>evs. w' = w @ evs \<and> Sleep \<notin> set evs"
  using title_to_wikidata_extends [OF assms] unfolding extends_by_def by blast

text \<open>
  Claim C5 says that a pause follows every request. The run on the example table sends
  the three queries of the title chain one after the other and pauses only after the
  last.
\<close>

theorem no_pause_inside_chain:
  "snd (main demo_service demo_table) =
      [Progress (Author ''12345''), Request (viaf_query ''12345''), Sleep,
       Progress (Work ''title:Lalka: tom 1''), Request (author_query ''Lalka'' ''Q1''),
       Request (label_query ''Lalka''), Request (full_title_query ''Lalka: tom 1''),
       Warning ''  Warning: SPARQL error for Lalka: tom 1: 500 Server Error'', Sleep,
       Progress (Work ''viaf:777''), Request (viaf_query ''777''), Sleep]"
  by (rule demo_trace)

end
